theory Spec2Isabelle
  imports Main
begin

unbundle bit_operations_syntax

section \<open>The data model of \<^verbatim>\<open>mmd/parse.py\<close>\<close>

text \<open>
  \<^verbatim>\<open>class Modifier(Flag)\<close>: a Python \<^verbatim>\<open>Flag\<close> is an integer bit set; \<^verbatim>\<open>auto()\<close> numbers
  the members 1, 2, 4, ... in the order of the class body. The operators \<^verbatim>\<open>|\<close>, \<^verbatim>\<open>&\<close> and
  \<^verbatim>\<open>^\<close> of the source are \<open>OR\<close>, \<open>AND\<close> and \<open>XOR\<close> on \<open>int\<close>, and a flag value is falsy
  exactly when it is 0.
\<close>

type_synonym Modifier = int

definition NONE :: Modifier where "NONE = 0"
definition WITH_SPACES :: Modifier where "WITH_SPACES = 1"
definition ALIGN :: Modifier where "ALIGN = 2"
definition BOLD :: Modifier where "BOLD = 4"
definition ITALIC :: Modifier where "ITALIC = 8"
definition MONOSPACE :: Modifier where "MONOSPACE = 16"
definition STRIKETHROUGH :: Modifier where "STRIKETHROUGH = 32"
definition SELECT :: Modifier where "SELECT = 64"
definition QUOTES :: Modifier where "QUOTES = 128"
definition BLOCK :: Modifier where "BLOCK = 256"

lemmas Modifier_defs =
  NONE_def WITH_SPACES_def ALIGN_def BOLD_def ITALIC_def MONOSPACE_def
  STRIKETHROUGH_def SELECT_def QUOTES_def BLOCK_def

text \<open>
  The dataclasses. A \<^verbatim>\<open>SourceReference\<close> is a file and a line number; the file is the same
  for every reference of one parse, so only the line number is kept. Text is a list of
  characters (code points below 256).

  \<^verbatim>\<open>Document\<close> objects are shared between the tree (the \<^verbatim>\<open>Section\<close>, \<^verbatim>\<open>Aside\<close> or \<^verbatim>\<open>List\<close>
  node that owns them) and the parser's \<^verbatim>\<open>stack\<close>, and are mutated through both. They live
  in a store, a list of documents indexed by address; a node and the stack hold addresses.
  \<^verbatim>\<open>Paragraph\<close> and \<^verbatim>\<open>Line\<close> objects are only ever reached through the document that holds
  them, so they are values inside it.
\<close>

datatype Word = Word (word_value: string) (modifier: Modifier)

datatype SourceLine = SourceLine (reference: nat) (words: "Word list")

datatype Kind = PLAIN | EMPHASIS | FOOT

type_synonym addr = nat

datatype item =
    Line "SourceLine list"
  | Aside Kind addr
  | List string addr
  | Block "string option" "SourceLine list"

text \<open>
  The title of a \<^verbatim>\<open>Section\<close> is the third group of the heading pattern: a string or
  \<^verbatim>\<open>None\<close> (the annotation \<^verbatim>\<open>SourceLine\<close> of the source is not what \<^verbatim>\<open>parse\<close> stores).
\<close>

datatype elem =
    Paragraph "item list"
  | Section nat "string option" addr

text \<open>
  \<^verbatim>\<open>Document.title\<close> receives whatever \<^verbatim>\<open>Document.pop\<close> returns, a \<^verbatim>\<open>Paragraph\<close> or a
  \<^verbatim>\<open>Section\<close>.
\<close>

record Document =
  indent :: nat
  title :: "elem option"
  content :: "elem list"

definition new_Document :: "nat \<Rightarrow> Document" where
  "new_Document n = \<lparr>indent = n, title = None, content = [Paragraph []]\<rparr>"

datatype error =
    ValueError string nat
  | AttributeError
  | IndexError
  | StopIteration
  | RecursionError

record state =
  store :: "Document list"
  stack :: "addr list"

section \<open>The regular expressions\<close>

text \<open>
  \<^verbatim>\<open>\s\<close> on a \<^verbatim>\<open>str\<close> pattern is Unicode white space; below 256 these are the twelve
  characters of \<open>is_space\<close>. \<^verbatim>\<open>str.lstrip\<close> and \<^verbatim>\<open>str.rstrip\<close> strip the same class.
  The lines come from \<^verbatim>\<open>str.splitlines\<close> and hold no line break, so \<^verbatim>\<open>.\<close> is any
  character and \<^verbatim>\<open>$\<close> is the end of the text.
\<close>

definition is_space :: "char \<Rightarrow> bool" where
  "is_space c = (c \<in> {CHR 0x09, CHR 0x0A, CHR 0x0B, CHR 0x0C, CHR 0x0D, CHR 0x1C,
                      CHR 0x1D, CHR 0x1E, CHR 0x1F, CHR '' '', CHR 0x85, CHR 0xA0})"

definition blank :: "string \<Rightarrow> bool" where
  \<comment> \<open>\<^verbatim>\<open>re.match(r'^\s*$', s)\<close>\<close>
  "blank s = list_all is_space s"

definition lstrip :: "string \<Rightarrow> string" where
  "lstrip s = dropWhile is_space s"

definition rstrip :: "string \<Rightarrow> string" where
  "rstrip s = rev (dropWhile is_space (rev s))"

definition re_title :: "string \<Rightarrow> bool" where
  \<comment> \<open>\<^verbatim>\<open>re.match(r'^---', s)\<close>\<close>
  "re_title s = (take 3 s = ''---'')"

text \<open>
  \<^verbatim>\<open>^(#+)(\s*)(?:\s(.+)\s*)?$\<close>. The first group takes every leading \<^verbatim>\<open>#\<close> (a shorter
  run would leave a \<^verbatim>\<open>#\<close> that nothing after it can match). Let \<open>r\<close> be the rest and \<open>m\<close>
  the length of its leading white space. If \<open>r\<close> is all white space the second group takes
  it and the optional group is skipped. Otherwise the optional group must match: it needs
  one white space character before the title, so \<open>m\<close> is at least 1, the second group gives
  back one character (\<open>m - 1\<close> are left to it), and \<^verbatim>\<open>.+\<close> takes the rest of the line.
  The result is the lengths of the first two groups and the third group.
\<close>

definition re_heading :: "string \<Rightarrow> (nat \<times> nat \<times> string option) option" where
  "re_heading s =
    (let level = length (takeWhile (\<lambda>c. c = CHR ''#'') s);
         r = drop level s;
         m = length (takeWhile is_space r)
     in if level = 0 then None
        else if m = length r then Some (level, m, None)
        else if m = 0 then None
        else Some (level, m - 1, Some (drop m r)))"

definition re_block :: "string \<Rightarrow> string option option" where
  \<comment> \<open>\<^verbatim>\<open>^```(.+)?\s*$\<close>: the group takes all that follows the fence, or is \<^verbatim>\<open>None\<close>\<close>
  "re_block s =
    (if take 3 s = ''```''
     then Some (if drop 3 s = [] then None else Some (drop 3 s))
     else None)"

definition re_block_end :: "string \<Rightarrow> bool" where
  \<comment> \<open>\<^verbatim>\<open>^```\s*$\<close>\<close>
  "re_block_end s = (take 3 s = ''```'' \<and> blank (drop 3 s))"

definition re_aside :: "string \<Rightarrow> (nat \<times> Kind) option" where
  \<comment> \<open>\<^verbatim>\<open>^(([_#]?)>\s*)\<close>: the length of the match and \<^verbatim>\<open>Aside.Kind\<close> of the second group\<close>
  "re_aside s =
    (case s of
       c # d # r \<Rightarrow>
         if (c = CHR ''_'' \<or> c = CHR ''#'') \<and> d = CHR ''>''
         then Some (2 + length (takeWhile is_space r), if c = CHR ''_'' then FOOT else EMPHASIS)
         else if c = CHR ''>'' then Some (1 + length (takeWhile is_space (d # r)), PLAIN)
         else None
     | [c] \<Rightarrow> if c = CHR ''>'' then Some (1, PLAIN) else None
     | [] \<Rightarrow> None)"

text \<open>
  \<^verbatim>\<open>^((?:[A-Z]+\.|\d+\.|[IVXCM]+\.|\s*-)+(?:\s+|$))\<close>. One marker is a run of capitals,
  of digits or of roman numerals with a dot, or a dash after any white space; the length of
  the marker at the start of a text is unique. The repetition is greedy: after a marker
  the pattern first tries to go on with more markers and only then to end here, with
  white space (all of it) or the end of the text.
\<close>

definition is_upper :: "char \<Rightarrow> bool" where
  "is_upper c = (c \<in> set ''ABCDEFGHIJKLMNOPQRSTUVWXYZ'')"

definition is_digit :: "char \<Rightarrow> bool" where
  "is_digit c = (c \<in> set ''0123456789'')"

definition is_roman :: "char \<Rightarrow> bool" where
  "is_roman c = (c \<in> set ''IVXCM'')"

definition run_then :: "(char \<Rightarrow> bool) \<Rightarrow> bool \<Rightarrow> char \<Rightarrow> string \<Rightarrow> nat option" where
  \<comment> \<open>a run of \<open>P\<close> (not empty when \<open>nonempty\<close>), then the character \<open>c\<close>: the length matched\<close>
  "run_then P nonempty c s =
    (let n = length (takeWhile P s)
     in if (nonempty \<and> n = 0) \<or> take 1 (drop n s) \<noteq> [c] then None else Some (Suc n))"

definition marker_unit :: "string \<Rightarrow> nat option" where
  "marker_unit s =
    (case run_then is_upper True (CHR ''.'') s of Some n \<Rightarrow> Some n | None \<Rightarrow>
     case run_then is_digit True (CHR ''.'') s of Some n \<Rightarrow> Some n | None \<Rightarrow>
     case run_then is_roman True (CHR ''.'') s of Some n \<Rightarrow> Some n | None \<Rightarrow>
     run_then is_space False (CHR ''-'') s)"

definition marker_tail :: "string \<Rightarrow> nat option" where
  \<comment> \<open>\<^verbatim>\<open>(?:\s+|$)\<close>\<close>
  "marker_tail s =
    (let n = length (takeWhile is_space s)
     in if n > 0 then Some n else if s = [] then Some 0 else None)"

lemma run_then_pos: "run_then P ne c s = Some k \<Longrightarrow> 0 < k \<and> k \<le> length s"
proof -
  assume a: "run_then P ne c s = Some k"
  let ?n = "length (takeWhile P s)"
  from a have k: "k = Suc ?n" and t: "take 1 (drop ?n s) = [c]"
    by (auto simp: run_then_def Let_def split: if_splits)
  from t have "drop ?n s \<noteq> []" by auto
  then have "?n < length s" by simp
  with k show "0 < k \<and> k \<le> length s" by simp
qed

lemma marker_unit_pos: "marker_unit s = Some n \<Longrightarrow> 0 < n \<and> n \<le> length s"
  unfolding marker_unit_def by (auto split: option.splits dest: run_then_pos)

function re_list :: "string \<Rightarrow> nat option" where
  "re_list s =
    (case marker_unit s of
       None \<Rightarrow> None
     | Some n \<Rightarrow>
         (case re_list (drop n s) of
            Some m \<Rightarrow> Some (n + m)
          | None \<Rightarrow> (case marker_tail (drop n s) of Some k \<Rightarrow> Some (n + k) | None \<Rightarrow> None)))"
  by pat_completeness auto
termination
  by (relation "measure length") (auto dest!: marker_unit_pos)

declare re_list.simps [simp del]

definition re_nonspace :: "string \<Rightarrow> bool" where
  \<comment> \<open>\<^verbatim>\<open>re.match(r'^\S', s)\<close>\<close>
  "re_nonspace s = (case s of [] \<Rightarrow> False | c # r \<Rightarrow> \<not> is_space c)"

text \<open>
  \<^verbatim>\<open>re.split(r'([_*~`]{1,2}|["\[\]]|\s+)', text)\<close>: the text is cut at every match of the
  pattern, found from left to right, and the matches are kept in the result (the pattern is
  one group). \<open>delimiter s\<close> is the length of the match at the start of \<open>s\<close>, 0 when there
  is none.
\<close>

definition is_sigil :: "char \<Rightarrow> bool" where
  "is_sigil c = (c \<in> set ''_*~`'')"

definition delimiter :: "string \<Rightarrow> nat" where
  "delimiter s =
    (case s of
       [] \<Rightarrow> 0
     | c # r \<Rightarrow>
         if is_sigil c then (case r of d # r' \<Rightarrow> if is_sigil d then 2 else 1 | [] \<Rightarrow> 1)
         else if c \<in> set ''\"[]'' then 1
         else length (takeWhile is_space (c # r)))"

lemma delimiter_le: "delimiter s \<le> length s"
  by (auto simp: delimiter_def length_takeWhile_le split: list.splits)

function re_split :: "string \<Rightarrow> string \<Rightarrow> string list" where
  "re_split acc [] = [acc]"
| "re_split acc (c # r) =
    (let n = delimiter (c # r)
     in if n = 0 then re_split (acc @ [c]) r
        else acc # take n (c # r) # re_split [] (drop n (c # r)))"
  by pat_completeness auto
termination
  by (relation "measure (\<lambda>(acc, s). length s)") auto

declare re_split.simps(2) [simp del]

section \<open>The inline tokenizer\<close>

definition mapping :: "char \<Rightarrow> Modifier option" where
  "mapping c =
    (if c = CHR ''*'' then Some BOLD
     else if c = CHR ''_'' then Some ITALIC
     else if c = CHR ''~'' then Some STRIKETHROUGH
     else if c = CHR ''`'' then Some MONOSPACE
     else if c = CHR 0x22 then Some QUOTES
     else if c = CHR ''['' then Some SELECT
     else if c = CHR '']'' then Some SELECT
     else None)"

text \<open>
  The loop over \<^verbatim>\<open>words\<close>: \<open>m\<close> is the running \<^verbatim>\<open>modifier\<close>, \<open>acc\<close> is
  \<^verbatim>\<open>source_line.content\<close>, \<open>ref\<close> the line number of \<^verbatim>\<open>reference\<close>. In
  \<^verbatim>\<open>applied |= modifier.WITH_SPACES\<close> the attribute is the class member
  \<^verbatim>\<open>Modifier.WITH_SPACES\<close>, read through an instance.
\<close>

fun words_loop :: "nat \<Rightarrow> Modifier \<Rightarrow> Word list \<Rightarrow> string list \<Rightarrow> error + Word list" where
  "words_loop ref m acc [] = Inr acc"
| "words_loop ref m acc (w # ws) =
    (if length w = 0 then words_loop ref m acc ws
     else case mapping (hd w) of
       Some applied \<Rightarrow>
         words_loop ref
           (m XOR (if length w = 2 \<or> applied = QUOTES then applied OR WITH_SPACES else applied))
           acc ws
     | None \<Rightarrow>
         if m \<noteq> NONE \<and> m AND WITH_SPACES = 0 \<and> is_space (hd w)
         then Inl (ValueError ''Spaces are not allowed here!'' ref)
         else words_loop ref (if m AND ALIGN \<noteq> 0 then m XOR ALIGN else m)
                (acc @ [Word w m]) ws)"

definition inline :: "nat \<Rightarrow> string \<Rightarrow> error + SourceLine" where
  \<comment> \<open>the text and word level of \<^verbatim>\<open>parse\<close>, from \<^verbatim>\<open>source_line = SourceLine(reference)\<close> on\<close>
  "inline ref tx =
    (case words_loop ref NONE [] (re_split [] (rstrip tx)) of
       Inl e \<Rightarrow> Inl e
     | Inr ws \<Rightarrow> Inr (SourceLine ref ws))"

section \<open>Documents in the store\<close>

definition upd :: "Document list \<Rightarrow> addr \<Rightarrow> (Document \<Rightarrow> Document) \<Rightarrow> Document list" where
  "upd s a f = s[a := f (s ! a)]"

text \<open>
  \<^verbatim>\<open>Document.empty\<close> is \<^verbatim>\<open>all(c.empty() for c in self.content)\<close>: the generator stops at the
  first entry that is not empty. \<^verbatim>\<open>Paragraph\<close> has an \<^verbatim>\<open>empty\<close> method, \<^verbatim>\<open>Section\<close> has none,
  so reaching a section raises \<^verbatim>\<open>AttributeError\<close>.
\<close>

fun all_empty :: "elem list \<Rightarrow> error + bool" where
  "all_empty [] = Inr True"
| "all_empty (Paragraph p # cs) = (if p = [] then all_empty cs else Inr False)"
| "all_empty (Section l t d # cs) = Inl AttributeError"

definition Document_empty :: "Document \<Rightarrow> error + bool" where
  "Document_empty d = all_empty (content d)"

definition Document_append :: "Document list \<Rightarrow> addr \<Rightarrow> elem \<Rightarrow> Document list" where
  "Document_append s a x = upd s a (\<lambda>d. d\<lparr>content := content d @ [x]\<rparr>)"

definition Document_pop :: "Document list \<Rightarrow> addr \<Rightarrow> error + (elem \<times> Document list)" where
  "Document_pop s a =
    (if content (s ! a) = [] then Inl IndexError
     else Inr (last (content (s ! a)), upd s a (\<lambda>d. d\<lparr>content := butlast (content d)\<rparr>)))"

text \<open>
  The property \<^verbatim>\<open>Document.paragraph\<close> is \<^verbatim>\<open>self.content[-1].paragraph\<close>: a paragraph is its
  own paragraph, a section hands on to its document. The result is a \<^verbatim>\<open>Paragraph\<close> object;
  here, the address \<open>b\<close> of the document whose last entry it is, and its items. The
  recursion runs through the store. A chain that visits more documents than the store
  holds has met one twice and never ends: Python raises \<^verbatim>\<open>RecursionError\<close>, and so does the
  model when the fuel, one more than the size of the store, runs out. (The interpreter's
  recursion limit itself is not modelled.)
\<close>

fun paragraph_chain :: "nat \<Rightarrow> Document list \<Rightarrow> addr \<Rightarrow> error + (addr \<times> item list)" where
  "paragraph_chain 0 s a = Inl RecursionError"
| "paragraph_chain (Suc n) s a =
    (if content (s ! a) = [] then Inl IndexError
     else case last (content (s ! a)) of
       Paragraph p \<Rightarrow> Inr (a, p)
     | Section l t b \<Rightarrow> paragraph_chain n s b)"

definition Document_paragraph :: "Document list \<Rightarrow> addr \<Rightarrow> error + (addr \<times> item list)" where
  "Document_paragraph s a = paragraph_chain (Suc (length s)) s a"

text \<open>
  The property \<^verbatim>\<open>Paragraph.line\<close>: \<^verbatim>\<open>None\<close> for an empty paragraph, else the \<^verbatim>\<open>line\<close> of the
  last item: a \<^verbatim>\<open>Line\<close> is its own line, a \<^verbatim>\<open>Block\<close> has none, an \<^verbatim>\<open>Aside\<close> and a \<^verbatim>\<open>List\<close>
  hand on to \<^verbatim>\<open>self.document.paragraph.line\<close>. The result locates the \<^verbatim>\<open>Line\<close> object: the
  document \<open>b\<close> whose last paragraph \<open>p\<close> ends with it, and its source lines.
\<close>

fun Paragraph_line ::
  "nat \<Rightarrow> Document list \<Rightarrow> addr \<times> item list \<Rightarrow> error + (addr \<times> item list \<times> SourceLine list) option"
where
  "Paragraph_line 0 s bp = Inl RecursionError"
| "Paragraph_line (Suc n) s (b, p) =
    (if p = [] then Inr None
     else case last p of
       Line sls \<Rightarrow> Inr (Some (b, p, sls))
     | Aside k c \<Rightarrow>
         (case Document_paragraph s c of Inl e \<Rightarrow> Inl e | Inr bp' \<Rightarrow> Paragraph_line n s bp')
     | List mk c \<Rightarrow>
         (case Document_paragraph s c of Inl e \<Rightarrow> Inl e | Inr bp' \<Rightarrow> Paragraph_line n s bp')
     | Block l c \<Rightarrow> Inr None)"

definition Paragraph_append :: "Document list \<Rightarrow> addr \<times> item list \<Rightarrow> item \<Rightarrow> Document list" where
  \<comment> \<open>\<^verbatim>\<open>append\<close> on the paragraph that \<open>Document_paragraph\<close> found\<close>
  "Paragraph_append s bp x =
    upd s (fst bp) (\<lambda>d. d\<lparr>content := butlast (content d) @ [Paragraph (snd bp @ [x])]\<rparr>)"

definition Line_append ::
  "Document list \<Rightarrow> addr \<times> item list \<times> SourceLine list \<Rightarrow> SourceLine \<Rightarrow> Document list" where
  \<comment> \<open>\<^verbatim>\<open>append\<close> on the line that \<open>Paragraph_line\<close> found\<close>
  "Line_append s loc sl =
    (case loc of (b, p, sls) \<Rightarrow>
      upd s b (\<lambda>d. d\<lparr>content := butlast (content d) @ [Paragraph (butlast p @ [Line (sls @ [sl])])]\<rparr>))"

section \<open>The parser\<close>

text \<open>The closures \<^verbatim>\<open>indent()\<close> and \<^verbatim>\<open>document()\<close> of \<^verbatim>\<open>parse\<close>.\<close>

definition total_indent :: "state \<Rightarrow> nat" where
  "total_indent st = sum_list (map (\<lambda>a. indent (store st ! a)) (stack st))"

definition document :: "state \<Rightarrow> addr" where
  "document st = last (stack st)"

text \<open>
  An exception leaves the loop body with the state as it is at that moment: the handler
  reads \<^verbatim>\<open>indent()\<close> from it. So an error is a pair of the exception and the state.
\<close>

text \<open>The body of the \<^verbatim>\<open>while\<close> loop that pops documents.\<close>

definition pop_scope :: "state \<Rightarrow> (error \<times> state) + state" where
  "pop_scope st =
    (let previous = last (stack st);
         st1 = st\<lparr>stack := butlast (stack st)\<rparr>
     in case Document_empty (store st1 ! previous) of
          Inl e \<Rightarrow> Inl (e, st1)
        | Inr em \<Rightarrow>
            if em then Inr st1
            else (case Document_paragraph (store st1) previous of
                    Inl e \<Rightarrow> Inl (e, st1)
                  | Inr bp \<Rightarrow>
                      if snd bp = [] then
                        (case Document_pop (store st1) previous of
                           Inl e \<Rightarrow> Inl (e, st1)
                         | Inr (x, s2) \<Rightarrow>
                             Inr (st1\<lparr>store := Document_append s2 (document st1) x\<rparr>))
                      else Inr st1))"

lemma pop_scope_stack: "pop_scope st = Inr st' \<Longrightarrow> stack st' = butlast (stack st)"
  by (auto simp: pop_scope_def Let_def split: sum.splits if_splits prod.splits)

function pop_scopes :: "state \<Rightarrow> string \<Rightarrow> (error \<times> state) + state" where
  "pop_scopes st tx =
    (if length (stack st) > 1 \<and> length tx > 0 \<and> \<not> blank (take (total_indent st) tx)
     then (case pop_scope st of Inl e \<Rightarrow> Inl e | Inr st' \<Rightarrow> pop_scopes st' tx)
     else Inr st)"
  by pat_completeness auto
termination
  by (relation "measure (\<lambda>(st, tx). length (stack st))") (auto dest!: pop_scope_stack)

declare pop_scopes.simps [simp del]

text \<open>\<^verbatim>\<open># Claim space if still empty\<close>\<close>

definition claim_space :: "state \<Rightarrow> string \<Rightarrow> nat \<Rightarrow> (error \<times> state) + (state \<times> string)" where
  "claim_space st tx ref =
    (case Document_empty (store st ! document st) of
       Inl e \<Rightarrow> Inl (e, st)
     | Inr em \<Rightarrow>
         if em then
           (let remaining = length (takeWhile is_space tx)
            in if remaining > 0 \<and> length (stack st) = 1
               then Inl (ValueError ''Invalid space on root document'' ref, st)
               else Inr (st\<lparr>store := upd (store st) (document st)
                                       (\<lambda>d. d\<lparr>indent := indent d + remaining\<rparr>)\<rparr>,
                         drop remaining tx))
         else Inr (st, tx))"

text \<open>
  The rules that end the iteration (\<^verbatim>\<open>continue\<close>) return the state and the line number
  (the index into \<^verbatim>\<open>lines\<close>) at that point; the block rule moves it.
\<close>

text \<open>\<^verbatim>\<open># Mark as title with triple\<close>\<close>

definition title_rule :: "state \<Rightarrow> nat \<Rightarrow> (error \<times> state \<times> nat) + (state \<times> nat)" where
  "title_rule st lineno =
    (case Document_pop (store st) (document st) of
       Inl e \<Rightarrow> Inl (e, st, lineno)
     | Inr (x, s1) \<Rightarrow>
         Inr (st\<lparr>store := Document_append (upd s1 (document st) (\<lambda>d. d\<lparr>title := Some x\<rparr>))
                             (document st) (Paragraph [])\<rparr>,
              lineno))"

text \<open>\<^verbatim>\<open># New section if it starts with hashtags\<close>\<close>

definition heading_rule ::
  "state \<Rightarrow> nat \<Rightarrow> nat \<Rightarrow> nat \<Rightarrow> string option \<Rightarrow> (error \<times> state \<times> nat) + (state \<times> nat)" where
  "heading_rule st lineno level pad ttl =
    (case Document_paragraph (store st) (document st) of
       Inl e \<Rightarrow> Inl (e, st, lineno)
     | Inr bp \<Rightarrow>
         (case (if snd bp = [] then
                  (case Document_pop (store st) (document st) of
                     Inl e \<Rightarrow> Inl e
                   | Inr (x, s1) \<Rightarrow> Inr s1)
                else Inr (store st)) of
            Inl e \<Rightarrow> Inl (e, st, lineno)
          | Inr s1 \<Rightarrow>
              (let virtual_document = length s1;
                   s2 = s1 @ [new_Document (level + pad + 1)];
                   s3 = Document_append s2 (document st) (Section level ttl virtual_document)
               in Inr (\<lparr>store = s3, stack = stack st @ [virtual_document]\<rparr>, lineno))))"

text \<open>
  \<^verbatim>\<open># Block\<close>. \<open>block_loop\<close> is the \<^verbatim>\<open>while\<close> loop: \<open>j\<close> is \<^verbatim>\<open>lineno\<close>, the index of the line
  in \<^verbatim>\<open>text\<close>, and \<open>ind\<close> is \<^verbatim>\<open>indent()\<close>, which nothing changes during the loop. When
  \<^verbatim>\<open>next\<close> finds no line it raises \<^verbatim>\<open>StopIteration\<close> and \<^verbatim>\<open>lineno\<close> keeps its value: the
  result \<open>Inl j\<close>.
\<close>

function block_loop ::
  "string list \<Rightarrow> nat \<Rightarrow> nat \<Rightarrow> SourceLine list \<Rightarrow> nat + (SourceLine list \<times> nat)" where
  "block_loop lines ind j acc =
    (if re_block_end (drop ind (lines ! j)) then Inr (acc, j)
     else if Suc j < length lines
     then block_loop lines ind (Suc j) (acc @ [SourceLine j [Word (drop ind (lines ! j)) BLOCK]])
     else Inl j)"
  by pat_completeness auto
termination
  by (relation "measure (\<lambda>(lines, ind, j, acc). length lines - j)") auto

declare block_loop.simps [simp del]

definition block_rule ::
  "string list \<Rightarrow> nat \<Rightarrow> state \<Rightarrow> string option \<Rightarrow> (error \<times> state \<times> nat) + (state \<times> nat)" where
  "block_rule lines lineno st language =
    (if Suc lineno < length lines then
       (case block_loop lines (total_indent st) (Suc lineno) [] of
          Inl j \<Rightarrow> Inl (StopIteration, st, j)
        | Inr (blk, j) \<Rightarrow>
            (case Document_paragraph (store st) (document st) of
               Inl e \<Rightarrow> Inl (e, st, j)
             | Inr bp \<Rightarrow>
                 Inr (st\<lparr>store := Paragraph_append (store st) bp (Block language blk)\<rparr>, j)))
     else Inl (StopIteration, st, lineno))"

text \<open>
  \<^verbatim>\<open># Aside if it starts with `.?>`\<close> and \<^verbatim>\<open># List (known only implemented)\<close>: both go on
  with the rest of the text.
\<close>

definition aside_rule :: "state \<Rightarrow> string \<Rightarrow> (error \<times> state) + (state \<times> string)" where
  "aside_rule st tx =
    (case re_aside tx of
       None \<Rightarrow> Inr (st, tx)
     | Some (n, kind) \<Rightarrow>
         (let virtual_document = length (store st);
              s1 = store st @ [new_Document n]
          in case Document_paragraph s1 (document st) of
               Inl e \<Rightarrow> Inl (e, st\<lparr>store := s1\<rparr>)
             | Inr bp \<Rightarrow>
                 Inr (\<lparr>store = Paragraph_append s1 bp (Aside kind virtual_document),
                       stack = stack st @ [virtual_document]\<rparr>,
                      drop n tx)))"

definition list_rule :: "state \<Rightarrow> string \<Rightarrow> (error \<times> state) + (state \<times> string)" where
  "list_rule st tx =
    (case re_list tx of
       None \<Rightarrow> Inr (st, tx)
     | Some n \<Rightarrow>
         (let marker = take n tx;
              virtual_document = length (store st);
              s1 = store st @ [new_Document (length marker)]
          in case Document_paragraph s1 (document st) of
               Inl e \<Rightarrow> Inl (e, st\<lparr>store := s1\<rparr>)
             | Inr bp \<Rightarrow>
                 Inr (\<lparr>store = Paragraph_append s1 bp (List marker virtual_document),
                       stack = stack st @ [virtual_document]\<rparr>,
                      drop (length marker) tx)))"

text \<open>\<^verbatim>\<open># New paragraph if whitespace only or empty\<close>\<close>

definition blank_rule :: "state \<Rightarrow> nat \<Rightarrow> (error \<times> state \<times> nat) + (state \<times> nat)" where
  "blank_rule st lineno =
    (case Document_paragraph (store st) (document st) of
       Inl e \<Rightarrow> Inl (e, st, lineno)
     | Inr bp \<Rightarrow>
         if snd bp = [] then Inr (st, lineno)
         else Inr (st\<lparr>store := Document_append (store st) (document st) (Paragraph [])\<rparr>, lineno))"

text \<open>
  The rest of the body: a new line or a continued one, the words, and
  \<^verbatim>\<open>document().paragraph.line.append(source_line)\<close>, which raises \<^verbatim>\<open>AttributeError\<close> when
  \<^verbatim>\<open>line\<close> is \<^verbatim>\<open>None\<close>.
\<close>

definition line_rule :: "state \<Rightarrow> string \<Rightarrow> nat \<Rightarrow> (error \<times> state) + (state \<times> string)" where
  "line_rule st tx ref =
    (case Document_paragraph (store st) (document st) of
       Inl e \<Rightarrow> Inl (e, st)
     | Inr bp \<Rightarrow>
         if re_nonspace tx
         then Inr (st\<lparr>store := Paragraph_append (store st) bp (Line [])\<rparr>, tx)
         else if snd bp = [] then Inl (ValueError ''Invalid indentation'' ref, st)
         else Inr (st, lstrip tx))"

definition text_rule :: "state \<Rightarrow> string \<Rightarrow> nat \<Rightarrow> (error \<times> state \<times> nat) + (state \<times> nat)" where
  "text_rule st tx lineno =
    (case line_rule st tx (Suc lineno) of
       Inl (e, s) \<Rightarrow> Inl (e, s, lineno)
     | Inr (st1, tx1) \<Rightarrow>
         (case inline (Suc lineno) tx1 of
            Inl e \<Rightarrow> Inl (e, st1, lineno)
          | Inr source_line \<Rightarrow>
              (case Document_paragraph (store st1) (document st1) of
                 Inl e \<Rightarrow> Inl (e, st1, lineno)
               | Inr bp \<Rightarrow>
                   (case Paragraph_line (Suc (length (store st1))) (store st1) bp of
                      Inl e \<Rightarrow> Inl (e, st1, lineno)
                    | Inr None \<Rightarrow> Inl (AttributeError, st1, lineno)
                    | Inr (Some loc) \<Rightarrow>
                        Inr (st1\<lparr>store := Line_append (store st1) loc source_line\<rparr>, lineno)))))"

text \<open>
  The body of the \<^verbatim>\<open>for\<close> loop for the line \<^verbatim>\<open>lines[lineno]\<close>, inside \<^verbatim>\<open>try\<close>. The rules
  apply in the order of the source; \<^verbatim>\<open>reference\<close> is \<^verbatim>\<open>lineno + 1\<close>.
\<close>

definition iteration :: "string list \<Rightarrow> nat \<Rightarrow> state \<Rightarrow> (error \<times> state \<times> nat) + (state \<times> nat)" where
  "iteration lines lineno st =
    (case pop_scopes st (lines ! lineno) of
       Inl (e, s) \<Rightarrow> Inl (e, s, lineno)
     | Inr st1 \<Rightarrow>
         (case claim_space st1 (drop (total_indent st1) (lines ! lineno)) (Suc lineno) of
            Inl (e, s) \<Rightarrow> Inl (e, s, lineno)
          | Inr (st2, tx) \<Rightarrow>
              if re_title tx then title_rule st2 lineno
              else case re_heading tx of
                Some (level, pad, ttl) \<Rightarrow> heading_rule st2 lineno level pad ttl
              | None \<Rightarrow>
                  (case re_block tx of
                     Some language \<Rightarrow> block_rule lines lineno st2 language
                   | None \<Rightarrow>
                       (case aside_rule st2 tx of
                          Inl (e, s) \<Rightarrow> Inl (e, s, lineno)
                        | Inr (st3, tx3) \<Rightarrow>
                            (case list_rule st3 tx3 of
                               Inl (e, s) \<Rightarrow> Inl (e, s, lineno)
                             | Inr (st4, tx4) \<Rightarrow>
                                 if blank tx4 then blank_rule st4 lineno
                                 else text_rule st4 tx4 lineno)))))"

text \<open>
  The handler \<^verbatim>\<open>except Exception as e\<close> adds a note and raises \<^verbatim>\<open>e\<close> again. The note
  reads \<^verbatim>\<open>lines[lineno][indent()]\<close>; when the line is too short for that index the
  handler itself raises \<^verbatim>\<open>IndexError\<close>, which is then what \<^verbatim>\<open>parse\<close> raises.
\<close>

definition handler :: "string list \<Rightarrow> error \<times> state \<times> nat \<Rightarrow> error" where
  "handler lines x =
    (case x of (e, st, lineno) \<Rightarrow>
       if total_indent st < length (lines ! lineno) then e else IndexError)"

lemma block_loop_index: "block_loop lines ind j acc = Inr (blk, k) \<Longrightarrow> j \<le> k"
proof (induction lines ind j acc rule: block_loop.induct)
  case (1 lines ind j acc)
  then show ?case
    by (subst (asm) (2) block_loop.simps) (auto split: if_splits)
qed

lemma iteration_index: "iteration lines i st = Inr (st', j) \<Longrightarrow> i \<le> j"
  by (auto simp: iteration_def title_rule_def heading_rule_def block_rule_def blank_rule_def
        text_rule_def Let_def
      split: sum.splits prod.splits if_splits option.splits dest: block_loop_index)

text \<open>
  The \<^verbatim>\<open>for\<close> loop over \<^verbatim>\<open>enumerate(lines)\<close>: \<open>i\<close> is the index of the next line the
  iterator gives.
\<close>

function parse_loop :: "string list \<Rightarrow> nat \<Rightarrow> state \<Rightarrow> error + state" where
  "parse_loop lines i st =
    (if i < length lines then
       (case iteration lines i st of
          Inl x \<Rightarrow> Inl (handler lines x)
        | Inr (st', j) \<Rightarrow> parse_loop lines (Suc j) st')
     else Inr st)"
  by pat_completeness auto
termination
  by (relation "measure (\<lambda>(lines, i, st). length lines - i)") (auto dest!: iteration_index)

declare parse_loop.simps [simp del]

text \<open>
  \<^verbatim>\<open>parse\<close>, from the lines that \<^verbatim>\<open>file.read_text().splitlines()\<close> gives. The result
  \<^verbatim>\<open>stack[0]\<close> is the address of the root document; with it comes the store that holds
  the documents of the tree.
\<close>

definition initial :: state where
  "initial = \<lparr>store = [new_Document 0], stack = [0]\<rparr>"

definition parse :: "string list \<Rightarrow> error + (Document list \<times> addr)" where
  "parse lines =
    (case parse_loop lines 0 initial of
       Inl e \<Rightarrow> Inl e
     | Inr st \<Rightarrow> Inr (store st, stack st ! 0))"

section \<open>Predicates on stores and states\<close>

text \<open>
  \<open>ok_content\<close>: an empty paragraph stands only at the end of a document's content.
  \<open>open_end\<close>: the content ends with a section or a paragraph that is not empty.
  \<open>wf\<close>: the stack is not empty and holds distinct addresses of the store, every
  document of the store has \<open>ok_content\<close>, and every document of the stack but the
  active one has \<open>open_end\<close> (its last entry holds the next document of the stack).
\<close>

definition ok_content :: "elem list \<Rightarrow> bool" where
  "ok_content cs = (Paragraph [] \<notin> set (butlast cs))"

definition open_end :: "elem list \<Rightarrow> bool" where
  "open_end cs = (cs \<noteq> [] \<and> last cs \<noteq> Paragraph [])"

definition wf :: "state \<Rightarrow> bool" where
  "wf st =
    (stack st \<noteq> [] \<and> distinct (stack st) \<and>
     list_all (\<lambda>a. a < length (store st)) (stack st) \<and>
     list_all (\<lambda>d. ok_content (content d)) (store st) \<and>
     list_all (\<lambda>a. open_end (content (store st ! a))) (butlast (stack st)))"

text \<open>
  \<open>askable\<close>: \<^verbatim>\<open>Document.empty\<close> returns on this content. \<open>good\<close> is the state between two
  iterations of the loop: the active document went through \<^verbatim>\<open>document().empty()\<close>.
\<close>

definition askable :: "elem list \<Rightarrow> bool" where
  "askable cs = (\<not> isl (all_empty cs))"

definition good :: "state \<Rightarrow> bool" where
  "good st = (wf st \<and> askable (content (store st ! document st)))"

text \<open>
  \<open>reach lines i st\<close>: in the parse of \<open>lines\<close>, \<open>st\<close> is the state when the loop asks for
  the line of index \<open>i\<close>.
\<close>

inductive reach :: "string list \<Rightarrow> nat \<Rightarrow> state \<Rightarrow> bool" for lines :: "string list" where
  reach_initial: "reach lines 0 initial"
| reach_step:
    "reach lines i st \<Longrightarrow> i < length lines \<Longrightarrow> iteration lines i st = Inr (st', j) \<Longrightarrow>
     reach lines (Suc j) st'"


text \<open>The state after one paragraph break in the active document.\<close>

definition paragraph_break :: "state \<Rightarrow> state" where
  \<comment> \<open>\<^verbatim>\<open>document().append(Paragraph())\<close>\<close>
  "paragraph_break st = st\<lparr>store := Document_append (store st) (document st) (Paragraph [])\<rparr>"

text \<open>
  The items of a document are those of the paragraphs of its content and of its title; the
  items of a store are those of its documents. \<open>items_ok Q s\<close>: every item of the store
  \<open>s\<close> has the property \<open>Q\<close>.
\<close>

fun elem_items :: "elem \<Rightarrow> item list" where
  "elem_items (Paragraph p) = p"
| "elem_items (Section l t d) = []"

definition doc_items :: "Document \<Rightarrow> item set" where
  "doc_items d =
    (\<Union>e\<in>set (content d). set (elem_items e)) \<union>
    (case title d of None \<Rightarrow> {} | Some e \<Rightarrow> set (elem_items e))"

definition store_items :: "Document list \<Rightarrow> item set" where
  "store_items s = (\<Union>d\<in>set s. doc_items d)"

definition items_ok :: "(item \<Rightarrow> bool) \<Rightarrow> Document list \<Rightarrow> bool" where
  "items_ok Q s = (\<forall>x\<in>store_items s. Q x)"

text \<open>
  Two kinds of tokens of a line. \<open>keeps_spaces\<close>: the token does not toggle
  \<^verbatim>\<open>WITH_SPACES\<close>: it is empty, a word, white space, or a single sigil other than the
  quote. \<open>plain_word\<close>: the token is empty or a word: no sigil and no white space.
\<close>

definition keeps_spaces :: "string \<Rightarrow> bool" where
  "keeps_spaces w =
    (case w of
       [] \<Rightarrow> True
     | c # r \<Rightarrow> (case mapping c of None \<Rightarrow> True | Some a \<Rightarrow> length w \<noteq> 2 \<and> a \<noteq> QUOTES))"

definition plain_word :: "string \<Rightarrow> bool" where
  "plain_word w = (case w of [] \<Rightarrow> True | c # r \<Rightarrow> mapping c = None \<and> \<not> is_space c)"

text \<open>No word of the item has the \<^verbatim>\<open>ALIGN\<close> bit.\<close>

definition no_align :: "item \<Rightarrow> bool" where
  "no_align x =
    (case x of
       Line sls \<Rightarrow> list_all (\<lambda>sl. list_all (\<lambda>w. modifier w AND ALIGN = 0) (words sl)) sls
     | Block l sls \<Rightarrow> list_all (\<lambda>sl. list_all (\<lambda>w. modifier w AND ALIGN = 0) (words sl)) sls
     | Aside k v \<Rightarrow> True
     | List mk v \<Rightarrow> True)"


section \<open>Facts about the store\<close>

lemma length_upd [simp]: "length (upd s a f) = length s"
  by (simp add: upd_def)

lemma nth_upd: "a' < length s \<Longrightarrow> upd s a f ! a' = (if a' = a then f (s ! a) else s ! a')"
  by (simp add: upd_def nth_list_update)

lemma nth_upd_same [simp]: "a < length s \<Longrightarrow> upd s a f ! a = f (s ! a)"
  by (simp add: nth_upd)

lemma nth_upd_other [simp]: "a' \<noteq> a \<Longrightarrow> upd s a f ! a' = s ! a'"
  by (simp add: upd_def)

lemma upd_beyond: "length s \<le> a \<Longrightarrow> upd s a f = s"
  by (simp add: upd_def list_update_beyond)

lemma set_upd: "d \<in> set (upd s a f) \<Longrightarrow> d \<in> set s \<or> (a < length s \<and> d = f (s ! a))"
  unfolding upd_def
  by (metis in_set_conv_nth length_list_update nth_list_update_eq nth_list_update_neq)

lemma all_upd:
  assumes "\<forall>d\<in>set s. P d" and "a < length s \<Longrightarrow> P (s ! a) \<Longrightarrow> P (f (s ! a))"
  shows "\<forall>d\<in>set (upd s a f). P d"
proof
  fix d
  assume "d \<in> set (upd s a f)"
  then consider "d \<in> set s" | "a < length s" "d = f (s ! a)"
    using set_upd by blast
  then show "P d"
  proof cases
    case 1
    with assms(1) show ?thesis by blast
  next
    case 2
    then have "P (s ! a)" using assms(1) by simp
    with 2 assms(2) show ?thesis by simp
  qed
qed

text \<open>What the two properties return is where they say it is.\<close>

lemma paragraph_chain_last:
  "paragraph_chain n s a = Inr (b, p) \<Longrightarrow>
   content (s ! b) \<noteq> [] \<and> last (content (s ! b)) = Paragraph p"
  by (induction n arbitrary: a) (auto split: if_splits elem.splits)

lemma Document_paragraph_last:
  "Document_paragraph s a = Inr (b, p) \<Longrightarrow>
   content (s ! b) \<noteq> [] \<and> last (content (s ! b)) = Paragraph p"
  unfolding Document_paragraph_def by (rule paragraph_chain_last)

lemma Document_paragraph_cases:
  "Document_paragraph s a = Inr (b, p) \<Longrightarrow>
   content (s ! a) \<noteq> [] \<and> (b = a \<or> (\<exists>l t c. last (content (s ! a)) = Section l t c))"
  unfolding Document_paragraph_def by (auto split: if_splits elem.splits)

lemma Document_paragraph_direct:
  "content (s ! a) \<noteq> [] \<Longrightarrow> last (content (s ! a)) = Paragraph p \<Longrightarrow>
   Document_paragraph s a = Inr (a, p)"
  unfolding Document_paragraph_def by simp

lemma Paragraph_line_last:
  "Paragraph_line n s (b, p) = Inr (Some (b', p', sls)) \<Longrightarrow>
   content (s ! b) \<noteq> [] \<and> last (content (s ! b)) = Paragraph p \<Longrightarrow>
   content (s ! b') \<noteq> [] \<and> last (content (s ! b')) = Paragraph p' \<and> p' \<noteq> [] \<and> last p' = Line sls"
proof (induction n arbitrary: b p)
  case 0
  then show ?case by simp
next
  case (Suc n)
  show ?case
  proof (cases "p = []")
    case True
    with Suc.prems show ?thesis by simp
  next
    case False
    show ?thesis
    proof (cases "last p")
      case (Line x)
      with False Suc.prems show ?thesis by auto
    next
      case (Aside k c)
      with False Suc.prems obtain b2 p2 where
        dp: "Document_paragraph s c = Inr (b2, p2)" and
        pl: "Paragraph_line n s (b2, p2) = Inr (Some (b', p', sls))"
        by (auto split: sum.splits)
      from Suc.IH[OF pl] Document_paragraph_last[OF dp] show ?thesis by simp
    next
      case (List m c)
      with False Suc.prems obtain b2 p2 where
        dp: "Document_paragraph s c = Inr (b2, p2)" and
        pl: "Paragraph_line n s (b2, p2) = Inr (Some (b', p', sls))"
        by (auto split: sum.splits)
      from Suc.IH[OF pl] Document_paragraph_last[OF dp] show ?thesis by simp
    next
      case (Block l c)
      with False Suc.prems show ?thesis by simp
    qed
  qed
qed

section \<open>Invariants of the parser state\<close>

lemma wfI:
  "stack st \<noteq> [] \<Longrightarrow> distinct (stack st) \<Longrightarrow> \<forall>a\<in>set (stack st). a < length (store st) \<Longrightarrow>
   \<forall>d\<in>set (store st). ok_content (content d) \<Longrightarrow>
   \<forall>a\<in>set (butlast (stack st)). open_end (content (store st ! a)) \<Longrightarrow> wf st"
  by (simp add: wf_def list_all_iff)

lemma wfD:
  assumes "wf st"
  shows "stack st \<noteq> []" "distinct (stack st)" "\<forall>a\<in>set (stack st). a < length (store st)"
    "\<forall>d\<in>set (store st). ok_content (content d)"
    "\<forall>a\<in>set (butlast (stack st)). open_end (content (store st ! a))"
  using assms by (simp_all add: wf_def list_all_iff)

lemma wf_document: "wf st \<Longrightarrow> document st < length (store st) \<and> document st \<in> set (stack st)"
  by (simp add: wf_def list_all_iff document_def)

lemma ok_content_butlast: "ok_content cs \<Longrightarrow> ok_content (butlast cs)"
  unfolding ok_content_def by (meson in_set_butlastD)

lemma ok_content_replace: "ok_content cs \<Longrightarrow> ok_content (butlast cs @ [x])"
  by (simp add: ok_content_def)

lemma ok_content_append:
  "ok_content cs \<Longrightarrow> cs = [] \<or> last cs \<noteq> Paragraph [] \<Longrightarrow> ok_content (cs @ [x])"
  unfolding ok_content_def
  by (metis append_butlast_last_id butlast_snoc empty_iff list.set(1) rotate1.simps(2) set_ConsD set_rotate1)

lemma ok_content_butlast_end: "ok_content cs \<Longrightarrow> butlast cs = [] \<or> last (butlast cs) \<noteq> Paragraph []"
  unfolding ok_content_def by (metis last_in_set)

lemma wf_replace_last:
  assumes "wf st" and "q \<noteq> []"
  shows "wf (st\<lparr>store := upd (store st) b (\<lambda>d. d\<lparr>content := butlast (content d) @ [Paragraph q]\<rparr>)\<rparr>)"
proof (rule wfI)
  let ?f = "\<lambda>d. d\<lparr>content := butlast (content d) @ [Paragraph q]\<rparr>"
  let ?st = "st\<lparr>store := upd (store st) b ?f\<rparr>"
  show "stack ?st \<noteq> []" "distinct (stack ?st)" "\<forall>a\<in>set (stack ?st). a < length (store ?st)"
    using wfD[OF assms(1)] by simp_all
  show "\<forall>d\<in>set (store ?st). ok_content (content d)"
    using wfD(4)[OF assms(1)] by (auto dest!: set_upd simp: ok_content_replace)
  show "\<forall>a\<in>set (butlast (stack ?st)). open_end (content (store ?st ! a))"
  proof
    fix a assume a: "a \<in> set (butlast (stack ?st))"
    then have "a < length (store st)" "open_end (content (store st ! a))"
      using wfD[OF assms(1)] by (auto dest: in_set_butlastD)
    then show "open_end (content (store ?st ! a))"
      using assms(2) by (cases "a = b") (simp_all add: open_end_def)
  qed
qed

lemma wf_Paragraph_append:
  "wf st \<Longrightarrow> wf (st\<lparr>store := Paragraph_append (store st) bp x\<rparr>)"
  unfolding Paragraph_append_def by (rule wf_replace_last) simp_all

lemma wf_Line_append:
  "wf st \<Longrightarrow> wf (st\<lparr>store := Line_append (store st) loc sl\<rparr>)"
  unfolding Line_append_def by (cases loc) (simp add: wf_replace_last)

lemma wf_top:
  assumes "wf st" and "ok_content (content (f (store st ! document st)))"
  shows "wf (st\<lparr>store := upd (store st) (document st) f\<rparr>)"
proof (rule wfI)
  let ?st = "st\<lparr>store := upd (store st) (document st) f\<rparr>"
  show "stack ?st \<noteq> []" "distinct (stack ?st)" "\<forall>a\<in>set (stack ?st). a < length (store ?st)"
    using wfD[OF assms(1)] by simp_all
  show "\<forall>d\<in>set (store ?st). ok_content (content d)"
    using wfD(4)[OF assms(1)] assms(2) by (auto dest!: set_upd)
  show "\<forall>a\<in>set (butlast (stack ?st)). open_end (content (store ?st ! a))"
  proof
    fix a assume a: "a \<in> set (butlast (stack ?st))"
    have "a \<noteq> document st"
      using a wfD(1,2)[OF assms(1)] unfolding document_def
      by (metis append_butlast_last_id distinct_butlast not_distinct_conv_prefix select_convs(2) surjective update_convs(1))
    then show "open_end (content (store ?st ! a))"
      using a wfD(5)[OF assms(1)] by simp
  qed
qed

lemma wf_top_neq: "wf st \<Longrightarrow> a \<in> set (butlast (stack st)) \<Longrightarrow> a \<noteq> document st"
  unfolding wf_def document_def
  by (metis append_butlast_last_id distinct_butlast not_distinct_conv_prefix)

lemma wf_alloc:
  assumes "wf st"
  shows "wf (st\<lparr>store := store st @ [new_Document n]\<rparr>)"
proof (rule wfI)
  let ?st = "st\<lparr>store := store st @ [new_Document n]\<rparr>"
  show "stack ?st \<noteq> []" "distinct (stack ?st)" "\<forall>a\<in>set (stack ?st). a < length (store ?st)"
    using wfD[OF assms(1)] by auto
  show "\<forall>d\<in>set (store ?st). ok_content (content d)"
    using wfD(4)[OF assms(1)] by (auto simp: new_Document_def ok_content_def)
  show "\<forall>a\<in>set (butlast (stack ?st)). open_end (content (store ?st ! a))"
    using wfD(3,5)[OF assms(1)] by (auto simp: nth_append dest: in_set_butlastD)
qed

lemma wf_push:
  assumes "wf st" and "v < length (store st)" and "v \<notin> set (stack st)"
    and "open_end (content (store st ! document st))"
  shows "wf (st\<lparr>stack := stack st @ [v]\<rparr>)"
proof (rule wfI)
  let ?st = "st\<lparr>stack := stack st @ [v]\<rparr>"
  show "stack ?st \<noteq> []" "distinct (stack ?st)" "\<forall>a\<in>set (stack ?st). a < length (store ?st)"
    using wfD[OF assms(1)] assms(2,3) by auto
  show "\<forall>d\<in>set (store ?st). ok_content (content d)"
    using wfD(4)[OF assms(1)] by simp
  show "\<forall>a\<in>set (butlast (stack ?st)). open_end (content (store ?st ! a))"
  proof
    fix a assume "a \<in> set (butlast (stack ?st))"
    then have "a \<in> set (stack st)" by simp
    then have "a \<in> set (butlast (stack st)) \<or> a = document st"
      using wfD(1)[OF assms(1)] unfolding document_def
      by (metis append_butlast_last_id insert_iff list.set(2) rotate1.simps(2) set_rotate1)
    then show "open_end (content (store ?st ! a))"
      using wfD(5)[OF assms(1)] assms(4) by auto
  qed
qed

lemma wf_pop_stack:
  assumes "wf st" and "1 < length (stack st)"
  shows "wf (st\<lparr>stack := butlast (stack st)\<rparr>)"
    and "open_end (content (store st ! last (butlast (stack st))))"
    and "last (stack st) \<noteq> last (butlast (stack st))"
    and "last (stack st) < length (store st)"
    and "last (butlast (stack st)) < length (store st)"
proof -
  from assms(2) have ne: "butlast (stack st) \<noteq> []"
    by (cases "stack st" rule: rev_cases) auto
  then have l: "last (butlast (stack st)) \<in> set (butlast (stack st))" by simp
  show "wf (st\<lparr>stack := butlast (stack st)\<rparr>)"
    using wfD[OF assms(1)] ne
    by (intro wfI) (auto dest: in_set_butlastD simp: distinct_butlast)
  show "open_end (content (store st ! last (butlast (stack st))))"
    using wfD(5)[OF assms(1)] l by blast
  show "last (stack st) \<noteq> last (butlast (stack st))"
    using wf_top_neq[OF assms(1) l] by (simp add: document_def)
  show "last (stack st) < length (store st)"
    using wfD(1,3)[OF assms(1)] by simp
  show "last (butlast (stack st)) < length (store st)"
    using wfD(3)[OF assms(1)] l by (meson in_set_butlastD)
qed

lemma pop_scope_wf:
  assumes "wf st" and "1 < length (stack st)" and "pop_scope st = Inr st'"
  shows "wf st'"
proof -
  let ?prev = "last (stack st)"
  let ?st1 = "st\<lparr>stack := butlast (stack st)\<rparr>"
  let ?top = "last (butlast (stack st))"
  note p = wf_pop_stack[OF assms(1,2)]
  have top: "document ?st1 = ?top" by (simp add: document_def)
  consider "st' = ?st1"
    | x s2 where "Document_pop (store st) ?prev = Inr (x, s2)"
        "st' = ?st1\<lparr>store := Document_append s2 ?top x\<rparr>"
    using assms(3) top
    by (auto simp: pop_scope_def Let_def split: sum.splits if_splits prod.splits)
  then show ?thesis
  proof cases
    case 1
    with p(1) show ?thesis by simp
  next
    case 2
    let ?s = "store st"
    from 2(1) have x: "x = last (content (?s ! ?prev))"
      and s2: "s2 = upd ?s ?prev (\<lambda>d. d\<lparr>content := butlast (content d)\<rparr>)"
      by (auto simp: Document_pop_def split: if_splits)
    have wf2: "wf (?st1\<lparr>store := s2\<rparr>)"
    proof (rule wfI)
      show "stack (?st1\<lparr>store := s2\<rparr>) \<noteq> []" "distinct (stack (?st1\<lparr>store := s2\<rparr>))"
        "\<forall>a\<in>set (stack (?st1\<lparr>store := s2\<rparr>)). a < length (store (?st1\<lparr>store := s2\<rparr>))"
        using wfD[OF p(1)] s2 by simp_all
      show "\<forall>d\<in>set (store (?st1\<lparr>store := s2\<rparr>)). ok_content (content d)"
        using wfD(4)[OF assms(1)] s2 by (auto dest!: set_upd simp: ok_content_butlast)
      show "\<forall>a\<in>set (butlast (stack (?st1\<lparr>store := s2\<rparr>))). open_end (content (store (?st1\<lparr>store := s2\<rparr>) ! a))"
      proof
        fix a assume a: "a \<in> set (butlast (stack (?st1\<lparr>store := s2\<rparr>)))"
        then have "a \<in> set (butlast (stack st))" by (auto dest: in_set_butlastD)
        then have "a \<noteq> ?prev" using wf_top_neq[OF assms(1)] by (auto simp: document_def)
        then show "open_end (content (store (?st1\<lparr>store := s2\<rparr>) ! a))"
          using a wfD(5)[OF p(1)] s2 by simp
      qed
    qed
    have c: "content (s2 ! ?top) = content (?s ! ?top)"
      using p(3) s2 by simp
    have "wf ((?st1\<lparr>store := s2\<rparr>)\<lparr>store := upd (store (?st1\<lparr>store := s2\<rparr>)) (document (?st1\<lparr>store := s2\<rparr>))
              (\<lambda>d. d\<lparr>content := content d @ [x]\<rparr>)\<rparr>)"
    proof (rule wf_top[OF wf2])
      have "ok_content (content (s2 ! ?top))"
        using wfD(4)[OF wf2] p(5) s2 by (simp add: nth_mem)
      then show "ok_content (content ((store (?st1\<lparr>store := s2\<rparr>) ! document (?st1\<lparr>store := s2\<rparr>))\<lparr>content := content (store (?st1\<lparr>store := s2\<rparr>) ! document (?st1\<lparr>store := s2\<rparr>)) @ [x]\<rparr>))"
        using p(2) c by (simp add: document_def ok_content_append open_end_def)
    qed
    then show ?thesis
      using 2(2) by (simp add: Document_append_def document_def)
  qed
qed

lemma pop_scopes_wf: "wf st \<Longrightarrow> pop_scopes st tx = Inr st' \<Longrightarrow> wf st'"
proof (induction st tx rule: pop_scopes.induct)
  case (1 st tx)
  show ?case
  proof (cases "length (stack st) > 1 \<and> length tx > 0 \<and> \<not> blank (take (total_indent st) tx)")
    case True
    with "1.prems"(2) obtain st1 where a: "pop_scope st = Inr st1" and b: "pop_scopes st1 tx = Inr st'"
      by (subst (asm) pop_scopes.simps) (auto split: sum.splits)
    from pop_scope_wf[OF "1.prems"(1) _ a] True have "wf st1" by simp
    from "1.IH"[OF _ a this b] True show ?thesis by simp
  next
    case False
    with "1.prems" show ?thesis by (subst (asm) pop_scopes.simps) auto
  qed
qed

lemma askable_prefix: "askable (xs @ ys) \<Longrightarrow> askable xs"
  unfolding askable_def
  by (induction xs rule: all_empty.induct) (auto split: if_splits)

lemma askable_butlast: "askable cs \<Longrightarrow> askable (butlast cs)"
proof (cases cs rule: rev_cases)
  case Nil
  then show ?thesis by (simp add: askable_def)
next
  case (snoc ys y)
  assume "askable cs"
  with snoc show ?thesis using askable_prefix[of ys "[y]"] by simp
qed

lemma askable_snoc: "askable cs \<Longrightarrow> askable (cs @ [Paragraph p])"
  unfolding askable_def
  by (induction cs rule: all_empty.induct) (auto split: if_splits)

lemma askable_replace: "askable cs \<Longrightarrow> askable (butlast cs @ [Paragraph p])"
  by (simp add: askable_butlast askable_snoc)

lemma askable_new [simp]: "askable (content (new_Document n))"
  by (simp add: askable_def new_Document_def)

lemma goodI: "wf st \<Longrightarrow> askable (content (store st ! document st)) \<Longrightarrow> good st"
  by (simp add: good_def)

lemma good_replace_last:
  assumes "good st" and "q \<noteq> []"
  shows "good (st\<lparr>store := upd (store st) b (\<lambda>d. d\<lparr>content := butlast (content d) @ [Paragraph q]\<rparr>)\<rparr>)"
proof (rule goodI)
  from assms have wf: "wf st" and a: "askable (content (store st ! document st))"
    by (simp_all add: good_def)
  show "wf (st\<lparr>store := upd (store st) b (\<lambda>d. d\<lparr>content := butlast (content d) @ [Paragraph q]\<rparr>)\<rparr>)"
    by (rule wf_replace_last[OF wf assms(2)])
  show "askable (content (store (st\<lparr>store := upd (store st) b (\<lambda>d. d\<lparr>content := butlast (content d) @ [Paragraph q]\<rparr>)\<rparr>)
          ! document (st\<lparr>store := upd (store st) b (\<lambda>d. d\<lparr>content := butlast (content d) @ [Paragraph q]\<rparr>)\<rparr>)))"
    using a wf_document[OF wf]
    by (cases "document st = b") (simp_all add: document_def askable_replace)
qed

lemma good_Paragraph_append:
  "good st \<Longrightarrow> good (st\<lparr>store := Paragraph_append (store st) bp x\<rparr>)"
  unfolding Paragraph_append_def by (rule good_replace_last) simp_all

lemma good_Line_append:
  "good st \<Longrightarrow> good (st\<lparr>store := Line_append (store st) loc sl\<rparr>)"
  unfolding Line_append_def by (cases loc) (simp add: good_replace_last)

lemma claim_space_good:
  assumes "wf st" and "claim_space st tx ref = Inr (st', tx')"
  shows "good st'"
proof -
  from assms(2) obtain r where r: "Document_empty (store st ! document st) = Inr r"
    by (auto simp: claim_space_def split: sum.splits)
  then have a: "askable (content (store st ! document st))"
    by (simp add: askable_def Document_empty_def)
  from assms(2) r consider "st' = st"
    | n where "st' = st\<lparr>store := upd (store st) (document st) (\<lambda>d. d\<lparr>indent := indent d + n\<rparr>)\<rparr>"
    by (auto simp: claim_space_def Let_def split: if_splits)
  then show ?thesis
  proof cases
    case 1
    with assms(1) a show ?thesis by (simp add: good_def)
  next
    case 2
    have "wf st'"
      unfolding 2 using wfD(4)[OF assms(1)] wf_document[OF assms(1)]
      by (intro wf_top[OF assms(1)]) (simp add: nth_mem)
    moreover have "askable (content (store st' ! document st'))"
      using a wf_document[OF assms(1)] unfolding 2 by (simp add: document_def)
    ultimately show ?thesis by (simp add: good_def)
  qed
qed

lemma claim_space_suffix:
  "claim_space st tx ref = Inr (st', tx') \<Longrightarrow> \<exists>k. tx' = drop k tx"
  by (auto simp: claim_space_def Let_def split: sum.splits if_splits intro: exI[of _ 0])

lemma title_rule_good:
  assumes "good st" and "title_rule st i = Inr (st', j)"
  shows "good st'"
proof -
  from assms(1) have wf: "wf st" and a: "askable (content (store st ! document st))"
    by (simp_all add: good_def)
  note d = wf_document[OF wf]
  let ?f = "\<lambda>d. d\<lparr>title := Some (last (content d)), content := butlast (content d) @ [Paragraph []]\<rparr>"
  have "st' = st\<lparr>store := upd (store st) (document st) ?f\<rparr>"
    using assms(2) d
    by (auto simp: title_rule_def Document_pop_def Document_append_def upd_def split: if_splits)
  moreover have "wf (st\<lparr>store := upd (store st) (document st) ?f\<rparr>)"
    using wfD(4)[OF wf] d by (intro wf_top[OF wf]) (simp add: nth_mem ok_content_replace)
  moreover have "askable (content (upd (store st) (document st) ?f ! document st))"
    using a d by (simp add: askable_replace)
  ultimately show ?thesis by (simp add: good_def document_def)
qed

lemma blank_rule_good:
  assumes "good st" and "blank_rule st i = Inr (st', j)"
  shows "good st'"
proof -
  from assms(1) have wf: "wf st" and a: "askable (content (store st ! document st))"
    by (simp_all add: good_def)
  note d = wf_document[OF wf]
  let ?f = "\<lambda>d. d\<lparr>content := content d @ [Paragraph []]\<rparr>"
  from assms(2) obtain b p where dp: "Document_paragraph (store st) (document st) = Inr (b, p)"
    by (auto simp: blank_rule_def split: sum.splits)
  show ?thesis
  proof (cases "p = []")
    case True
    with assms dp show ?thesis by (simp add: blank_rule_def)
  next
    case False
    with assms(2) dp have st': "st' = st\<lparr>store := upd (store st) (document st) ?f\<rparr>"
      by (simp add: blank_rule_def Document_append_def)
    from Document_paragraph_cases[OF dp] Document_paragraph_last[OF dp] False
    have oe: "open_end (content (store st ! document st))"
      by (auto simp: open_end_def)
    have "wf (st\<lparr>store := upd (store st) (document st) ?f\<rparr>)"
      using wfD(4)[OF wf] d oe
      by (intro wf_top[OF wf]) (simp add: nth_mem ok_content_append open_end_def)
    moreover have "askable (content (upd (store st) (document st) ?f ! document st))"
      using a d by (simp add: askable_snoc)
    ultimately show ?thesis by (simp add: good_def document_def st')
  qed
qed

lemma block_rule_good:
  "good st \<Longrightarrow> block_rule lines i st l = Inr (st', j) \<Longrightarrow> good st'"
  by (auto simp: block_rule_def split: if_splits sum.splits prod.splits intro: good_Paragraph_append)

lemma line_rule_good:
  "good st \<Longrightarrow> line_rule st tx ref = Inr (st', tx') \<Longrightarrow> good st'"
  by (auto simp: line_rule_def split: if_splits sum.splits prod.splits intro: good_Paragraph_append)

lemma text_rule_good:
  "good st \<Longrightarrow> text_rule st tx i = Inr (st', j) \<Longrightarrow> good st'"
  by (auto simp: text_rule_def split: if_splits sum.splits prod.splits option.splits
      intro!: good_Line_append dest: line_rule_good)

lemma state_make [simp]: "(st::state)\<lparr>store := a, stack := b\<rparr> = \<lparr>store = a, stack = b\<rparr>"
  by (cases st) simp

lemma push_item_good:
  assumes wf: "wf st"
    and dp: "Document_paragraph (store st @ [new_Document n]) (document st) = Inr bp"
  shows "good \<lparr>store = Paragraph_append (store st @ [new_Document n]) bp x,
               stack = stack st @ [length (store st)]\<rparr>"
proof -
  let ?s1 = "store st @ [new_Document n]"
  let ?v = "length (store st)"
  let ?f = "\<lambda>d. d\<lparr>content := butlast (content d) @ [Paragraph (snd bp @ [x])]\<rparr>"
  let ?s2 = "upd ?s1 (fst bp) ?f"
  let ?stb = "st\<lparr>store := ?s2\<rparr>"
  note d = wf_document[OF wf]
  have wfb: "wf ?stb"
    using wf_Paragraph_append[OF wf_alloc[OF wf], of n bp x] by (simp add: Paragraph_append_def)
  have top: "document ?stb = document st" by (simp add: document_def)
  obtain b p where bp: "bp = (b, p)" by (cases bp)
  have oe: "open_end (content (store ?stb ! document ?stb))"
  proof (cases "b = document st")
    case True
    with d bp show ?thesis by (simp add: document_def open_end_def)
  next
    case False
    with Document_paragraph_cases[OF dp[unfolded bp]] bp d show ?thesis
      by (auto simp: document_def open_end_def nth_append)
  qed
  have "wf (?stb\<lparr>stack := stack ?stb @ [?v]\<rparr>)"
    using wfD(3)[OF wf] by (intro wf_push[OF wfb _ _ oe]) auto
  moreover have "askable (content (?s2 ! ?v))"
    by (cases "fst bp = ?v") (simp_all add: askable_replace)
  ultimately show ?thesis
    by (simp add: good_def document_def Paragraph_append_def)
qed

lemma aside_rule_good:
  assumes "good st" and "aside_rule st tx = Inr (st', tx')"
  shows "good st'"
proof (cases "re_aside tx")
  case None
  with assms show ?thesis by (simp add: aside_rule_def)
next
  case (Some a)
  from assms(1) have "wf st" by (simp add: good_def)
  with assms(2) Some show ?thesis
    by (auto simp: aside_rule_def Let_def split: sum.splits prod.splits intro: push_item_good)
qed

lemma list_rule_good:
  assumes "good st" and "list_rule st tx = Inr (st', tx')"
  shows "good st'"
proof (cases "re_list tx")
  case None
  with assms show ?thesis by (simp add: list_rule_def)
next
  case (Some a)
  from assms(1) have "wf st" by (simp add: good_def)
  with assms(2) Some show ?thesis
    by (auto simp: list_rule_def Let_def split: sum.splits prod.splits intro: push_item_good)
qed

lemma heading_rule_good:
  assumes wf: "wf st" and h: "heading_rule st i level pad ttl = Inr (st', j)"
  shows "good st'"
proof -
  let ?top = "document st"
  let ?s = "store st"
  note d = wf_document[OF wf]
  from h obtain b p where dp: "Document_paragraph ?s ?top = Inr (b, p)"
    by (auto simp: heading_rule_def split: sum.splits)
  define s1 where "s1 = (if p = [] then upd ?s ?top (\<lambda>d. d\<lparr>content := butlast (content d)\<rparr>) else ?s)"
  let ?v = "length ?s"
  let ?x = "Section level ttl ?v"
  let ?g = "\<lambda>d. d\<lparr>content := content d @ [?x]\<rparr>"
  have st': "st' = \<lparr>store = upd (s1 @ [new_Document (level + pad + 1)]) ?top ?g, stack = stack st @ [?v]\<rparr>"
    using h dp
    by (auto simp: heading_rule_def Let_def s1_def Document_pop_def Document_append_def
        split: if_splits sum.splits)
  have len: "length s1 = ?v" by (simp add: s1_def)
  have wf1: "wf (st\<lparr>store := s1\<rparr>)"
  proof (cases "p = []")
    case True
    have "wf (st\<lparr>store := upd ?s ?top (\<lambda>d. d\<lparr>content := butlast (content d)\<rparr>)\<rparr>)"
      using wfD(4)[OF wf] d by (intro wf_top[OF wf]) (simp add: nth_mem ok_content_butlast)
    with True show ?thesis by (simp add: s1_def)
  next
    case False
    with wf show ?thesis by (simp add: s1_def)
  qed
  have ok: "ok_content (content (s1 ! ?top))"
    using wfD(4)[OF wf1] d len by (simp add: nth_mem)
  have e: "content (s1 ! ?top) = [] \<or> last (content (s1 ! ?top)) \<noteq> Paragraph []"
  proof (cases "p = []")
    case True
    have "ok_content (content (?s ! ?top))" using wfD(4)[OF wf] d by (simp add: nth_mem)
    from ok_content_butlast_end[OF this] True d show ?thesis by (simp add: s1_def)
  next
    case False
    with Document_paragraph_cases[OF dp] Document_paragraph_last[OF dp] show ?thesis
      by (auto simp: s1_def)
  qed
  let ?sta = "st\<lparr>store := s1 @ [new_Document (level + pad + 1)]\<rparr>"
  have wfa: "wf ?sta" using wf_alloc[OF wf1] by simp
  have topa: "document ?sta = ?top" by (simp add: document_def)
  have ca: "content (store ?sta ! ?top) = content (s1 ! ?top)"
    using d len by (simp add: nth_append)
  have wfc: "wf (?sta\<lparr>store := upd (store ?sta) (document ?sta) ?g\<rparr>)"
    using ok e ca by (intro wf_top[OF wfa]) (simp add: document_def ok_content_append)
  let ?stc = "?sta\<lparr>store := upd (store ?sta) (document ?sta) ?g\<rparr>"
  have "open_end (content (store ?stc ! document ?stc))"
    using d len by (simp add: document_def open_end_def)
  then have "wf (?stc\<lparr>stack := stack ?stc @ [?v]\<rparr>)"
    using wfD(3)[OF wf] len by (intro wf_push[OF wfc]) auto
  moreover have "askable (content (upd (s1 @ [new_Document (level + pad + 1)]) ?top ?g ! ?v))"
    using d len by (simp add: nth_append)
  ultimately show ?thesis
    by (simp add: good_def st' document_def)
qed

lemma iteration_good:
  assumes "wf st" and "iteration lines i st = Inr (st', j)"
  shows "good st'"
proof -
  from assms(2) obtain st1 st2 tx where
    p: "pop_scopes st (lines ! i) = Inr st1" and
    c: "claim_space st1 (drop (total_indent st1) (lines ! i)) (Suc i) = Inr (st2, tx)"
    by (auto simp: iteration_def split: sum.splits prod.splits)
  have g2: "good st2"
    by (rule claim_space_good[OF pop_scopes_wf[OF assms(1) p] c])
  then have wf2: "wf st2" by (simp add: good_def)
  from assms(2) p c
  consider "title_rule st2 i = Inr (st', j)"
    | level pad ttl where "heading_rule st2 i level pad ttl = Inr (st', j)"
    | l where "block_rule lines i st2 l = Inr (st', j)"
    | st3 tx3 st4 tx4 where "aside_rule st2 tx = Inr (st3, tx3)" "list_rule st3 tx3 = Inr (st4, tx4)"
        "blank_rule st4 i = Inr (st', j) \<or> text_rule st4 tx4 i = Inr (st', j)"
    by (auto simp: iteration_def split: sum.splits prod.splits if_splits option.splits)
  then show ?thesis
  proof cases
    case 1
    then show ?thesis by (rule title_rule_good[OF g2])
  next
    case 2
    then show ?thesis by (rule heading_rule_good[OF wf2])
  next
    case 3
    then show ?thesis by (rule block_rule_good[OF g2])
  next
    case 4
    have "good st4"
      by (rule list_rule_good[OF aside_rule_good[OF g2 4(1)] 4(2)])
    with 4(3) show ?thesis
      by (auto intro: blank_rule_good text_rule_good)
  qed
qed

section \<open>The states of a parse\<close>

lemma wf_initial: "wf initial"
  by (simp add: wf_def initial_def new_Document_def ok_content_def)

lemma good_initial: "good initial"
  using wf_initial by (simp add: good_def initial_def document_def)

lemma reach_good: "reach lines i st \<Longrightarrow> good st"
proof (induction rule: reach.induct)
  case reach_initial
  show ?case by (rule good_initial)
next
  case (reach_step i st st' j)
  from reach_step(4) have "wf st" by (simp add: good_def)
  then show ?case using reach_step(3) by (rule iteration_good)
qed

lemma reach_parse_loop: "reach lines i st \<Longrightarrow> parse_loop lines 0 initial = parse_loop lines i st"
proof (induction rule: reach.induct)
  case reach_initial
  show ?case by simp
next
  case (reach_step i st st' j)
  have "parse_loop lines i st = parse_loop lines (Suc j) st'"
    using reach_step(2,3) by (subst parse_loop.simps) simp
  with reach_step(4) show ?case by simp
qed





lemma blank_take: "blank tx \<Longrightarrow> blank (take n tx)"
  by (auto simp: blank_def list_all_iff dest: in_set_takeD)

lemma blank_drop: "blank tx \<Longrightarrow> blank (drop n tx)"
  by (auto simp: blank_def list_all_iff dest: in_set_dropD)

lemma pop_scopes_blank: "blank tx \<Longrightarrow> pop_scopes st tx = Inr st"
  by (subst pop_scopes.simps) (simp add: blank_take)

text \<open>A blank text matches none of the patterns that come before the blank rule.\<close>

lemma blank_not_title: "blank tx \<Longrightarrow> \<not> re_title tx"
  by (cases tx) (auto simp: blank_def re_title_def is_space_def)

lemma blank_not_heading: "blank tx \<Longrightarrow> re_heading tx = None"
  by (cases tx) (auto simp: blank_def re_heading_def is_space_def)

lemma blank_not_block: "blank tx \<Longrightarrow> re_block tx = None"
  by (cases tx) (auto simp: blank_def re_block_def is_space_def)

lemma blank_not_aside: "blank tx \<Longrightarrow> re_aside tx = None"
  by (auto simp: blank_def re_aside_def is_space_def split: list.splits)

lemma takeWhile_blank: "blank tx \<Longrightarrow> takeWhile is_space tx = tx"
  by (simp add: blank_def list_all_iff)

lemma takeWhile_none: "blank tx \<Longrightarrow> \<forall>c. is_space c \<longrightarrow> \<not> P c \<Longrightarrow> takeWhile P tx = []"
  by (cases tx) (auto simp: blank_def)

lemma blank_not_marker: "blank tx \<Longrightarrow> marker_unit tx = None"
proof -
  assume b: "blank tx"
  have u: "takeWhile is_upper tx = []"
    by (rule takeWhile_none[OF b]) (auto simp: is_space_def is_upper_def)
  have d: "takeWhile is_digit tx = []"
    by (rule takeWhile_none[OF b]) (auto simp: is_space_def is_digit_def)
  have r: "takeWhile is_roman tx = []"
    by (rule takeWhile_none[OF b]) (auto simp: is_space_def is_roman_def)
  show ?thesis
    by (simp add: marker_unit_def run_then_def u d r takeWhile_blank[OF b])
qed

lemma blank_not_list: "blank tx \<Longrightarrow> re_list tx = None"
  by (subst re_list.simps) (simp add: blank_not_marker)

lemma all_empty_True: "all_empty cs = Inr True \<Longrightarrow> \<forall>x\<in>set cs. x = Paragraph []"
  by (induction cs rule: all_empty.induct) (auto split: if_splits)

lemma all_empty_False_append: "all_empty cs = Inr False \<Longrightarrow> all_empty (cs @ ys) = Inr False"
  by (induction cs rule: all_empty.induct) (auto split: if_splits)

text \<open>A document whose current paragraph is not empty is not empty.\<close>

lemma not_empty_inside:
  assumes a: "askable (content (s ! a))" and dp: "Document_paragraph s a = Inr (b, p)" and p: "p \<noteq> []"
  shows "Document_empty (s ! a) = Inr False"
proof -
  from a obtain r where r: "all_empty (content (s ! a)) = Inr r"
    by (cases "all_empty (content (s ! a))") (auto simp: askable_def)
  have "\<not> r"
  proof
    assume r
    with r have "all_empty (content (s ! a)) = Inr True" by simp
    then have e: "\<forall>x\<in>set (content (s ! a)). x = Paragraph []" by (rule all_empty_True)
    from Document_paragraph_cases[OF dp] have ne: "content (s ! a) \<noteq> []" by simp
    with e have l: "last (content (s ! a)) = Paragraph []" by (meson last_in_set)
    from Document_paragraph_direct[OF ne l] dp p show False by simp
  qed
  with r show ?thesis by (simp add: Document_empty_def)
qed

lemma blank_iteration:
  assumes b: "blank (lines ! i)" and e: "Document_empty (store st ! document st) = Inr False"
  shows "iteration lines i st = blank_rule st i"
proof -
  let ?tx = "drop (total_indent st) (lines ! i)"
  have bt: "blank ?tx" by (rule blank_drop[OF b])
  have c: "claim_space st ?tx (Suc i) = Inr (st, ?tx)"
    using e by (simp add: claim_space_def)
  show ?thesis
    using bt by (simp add: iteration_def pop_scopes_blank[OF b] c blank_not_title blank_not_heading
        blank_not_block aside_rule_def blank_not_aside list_rule_def blank_not_list)
qed

lemma blank_first:
  assumes g: "good st" and b: "blank (lines ! i)"
    and dp: "Document_paragraph (store st) (document st) = Inr (bb, p)" and p: "p \<noteq> []"
  shows "iteration lines i st = Inr (paragraph_break st, i)"
    and "Document_empty (store (paragraph_break st) ! document (paragraph_break st)) = Inr False"
    and "Document_paragraph (store (paragraph_break st)) (document (paragraph_break st))
          = Inr (document st, [])"
proof -
  from g have wf: "wf st" and a: "askable (content (store st ! document st))"
    by (simp_all add: good_def)
  note d = wf_document[OF wf]
  have e: "Document_empty (store st ! document st) = Inr False"
    by (rule not_empty_inside[OF a dp p])
  show "iteration lines i st = Inr (paragraph_break st, i)"
    using dp p by (simp add: blank_iteration[OF b e] blank_rule_def paragraph_break_def)
  show "Document_empty (store (paragraph_break st) ! document (paragraph_break st)) = Inr False"
    using e d by (simp add: paragraph_break_def Document_append_def document_def Document_empty_def
        all_empty_False_append)
  show "Document_paragraph (store (paragraph_break st)) (document (paragraph_break st))
          = Inr (document st, [])"
    using d by (simp add: paragraph_break_def Document_append_def document_def Document_paragraph_def)
qed

lemma blank_next:
  assumes b: "blank (lines ! i)" and e: "Document_empty (store st ! document st) = Inr False"
    and dp: "Document_paragraph (store st) (document st) = Inr (bb, [])"
  shows "iteration lines i st = Inr (st, i)"
  using dp by (simp add: blank_iteration[OF b e] blank_rule_def)

lemma blank_run:
  assumes e: "Document_empty (store st ! document st) = Inr False"
    and dp: "Document_paragraph (store st) (document st) = Inr (bb, [])"
  shows "i + n \<le> length lines \<Longrightarrow> \<forall>k. i \<le> k \<and> k < i + n \<longrightarrow> blank (lines ! k) \<Longrightarrow>
         parse_loop lines i st = parse_loop lines (i + n) st"
proof (induction n arbitrary: i)
  case 0
  show ?case by simp
next
  case (Suc n)
  have b: "blank (lines ! i)" using Suc.prems(2) by simp
  have "parse_loop lines i st = parse_loop lines (Suc i) st"
    using Suc.prems(1) by (subst parse_loop.simps) (simp add: blank_next[OF b e dp])
  also have "\<dots> = parse_loop lines (Suc i + n) st"
    using Suc.prems by (intro Suc.IH) auto
  finally show ?case by simp
qed

section \<open>Facts about the rules\<close>

lemma quote_sets_spaces:
  "m AND WITH_SPACES = 0 \<Longrightarrow> (m XOR (QUOTES OR WITH_SPACES)) AND WITH_SPACES = WITH_SPACES"
  by (simp add: Modifier_defs and_one_eq mod2_eq_if even_xor_iff split: if_splits)

lemma space_not_sigil: "is_space c \<Longrightarrow> mapping c = None"
  by (auto simp: is_space_def mapping_def)

lemma block_loop_scan:
  assumes "j < length lines" and "i \<le> j" and "re_block_end (drop ind (lines ! j))"
    and "\<forall>k. i \<le> k \<and> k < j \<longrightarrow> \<not> re_block_end (drop ind (lines ! k))"
  shows "block_loop lines ind i acc =
           Inr (acc @ map (\<lambda>k. SourceLine k [Word (drop ind (lines ! k)) BLOCK]) [i..<j], j)"
  using assms(2,4)
proof (induction "j - i" arbitrary: i acc)
  case 0
  then have "i = j" by simp
  with assms(3) show ?case by (subst block_loop.simps) simp
next
  case (Suc n)
  then have lt: "i < j" by simp
  with Suc.prems(2) have ne: "\<not> re_block_end (drop ind (lines ! i))" by simp
  have "block_loop lines ind i acc =
        block_loop lines ind (Suc i) (acc @ [SourceLine i [Word (drop ind (lines ! i)) BLOCK]])"
    using ne lt assms(1) by (subst block_loop.simps) simp
  also have "\<dots> = Inr ((acc @ [SourceLine i [Word (drop ind (lines ! i)) BLOCK]]) @
        map (\<lambda>k. SourceLine k [Word (drop ind (lines ! k)) BLOCK]) [Suc i..<j], j)"
    using Suc.hyps(2) lt Suc.prems(2) by (intro Suc.hyps(1)) auto
  finally show ?case using lt by (simp add: upt_conv_Cons)
qed

lemma block_not_title: "re_block tx = Some l \<Longrightarrow> \<not> re_title tx"
  by (auto simp: re_block_def re_title_def split: if_splits)

lemma block_not_heading: "re_block tx = Some l \<Longrightarrow> re_heading tx = None"
  by (cases tx) (auto simp: re_block_def re_heading_def split: if_splits)

section \<open>The items of the store\<close>

lemma items_ok_upd:
  assumes "items_ok Q s" and "a < length s \<Longrightarrow> \<forall>x\<in>doc_items (f (s ! a)). Q x"
  shows "items_ok Q (upd s a f)"
  unfolding items_ok_def store_items_def
proof (intro ballI)
  fix x assume "x \<in> (\<Union>d\<in>set (upd s a f). doc_items d)"
  then obtain d where d: "d \<in> set (upd s a f)" and x: "x \<in> doc_items d" by blast
  from set_upd[OF d] show "Q x"
  proof
    assume "d \<in> set s"
    with x assms(1) show ?thesis by (auto simp: items_ok_def store_items_def)
  next
    assume "a < length s \<and> d = f (s ! a)"
    with x assms(2) show ?thesis by blast
  qed
qed

lemma items_ok_nth: "items_ok Q s \<Longrightarrow> a < length s \<Longrightarrow> x \<in> doc_items (s ! a) \<Longrightarrow> Q x"
  by (auto simp: items_ok_def store_items_def)

lemma items_ok_alloc: "items_ok Q s \<Longrightarrow> items_ok Q (s @ [new_Document n])"
  by (auto simp: items_ok_def store_items_def doc_items_def new_Document_def)

lemma doc_items_content:
  "e \<in> set (content d) \<Longrightarrow> x \<in> set (elem_items e) \<Longrightarrow> x \<in> doc_items d"
  by (auto simp: doc_items_def)

lemma doc_items_last:
  "content d \<noteq> [] \<Longrightarrow> last (content d) = Paragraph p \<Longrightarrow> x \<in> set p \<Longrightarrow> x \<in> doc_items d"
  using doc_items_content[of "Paragraph p" d x] by (metis elem_items.simps(1) last_in_set)

lemma doc_items_replace:
  "x \<in> doc_items (d\<lparr>content := butlast (content d) @ [Paragraph q]\<rparr>) \<Longrightarrow>
   x \<in> doc_items d \<or> x \<in> set q"
  by (auto simp: doc_items_def dest: in_set_butlastD)

lemma doc_items_butlast:
  "x \<in> doc_items (d\<lparr>content := butlast (content d)\<rparr>) \<Longrightarrow> x \<in> doc_items d"
  by (auto simp: doc_items_def dest: in_set_butlastD)

lemma doc_items_snoc:
  "x \<in> doc_items (d\<lparr>content := content d @ [e]\<rparr>) \<Longrightarrow> x \<in> doc_items d \<or> x \<in> set (elem_items e)"
  by (auto simp: doc_items_def)

lemma doc_items_indent [simp]: "doc_items (d\<lparr>indent := n\<rparr>) = doc_items d"
  by (simp add: doc_items_def)

lemma items_ok_Paragraph_append:
  assumes ok: "items_ok Q s" and dp: "Document_paragraph s a = Inr bp" and q: "Q x"
  shows "items_ok Q (Paragraph_append s bp x)"
proof -
  obtain b p where bp: "bp = (b, p)" by (cases bp)
  note l = Document_paragraph_last[OF dp[unfolded bp]]
  show ?thesis
    unfolding Paragraph_append_def bp
  proof (rule items_ok_upd[OF ok], intro ballI)
    fix y
    assume b: "fst (b, p) < length s"
      and "y \<in> doc_items ((s ! fst (b, p))\<lparr>content := butlast (content (s ! fst (b, p))) @ [Paragraph (snd (b, p) @ [x])]\<rparr>)"
    then have "y \<in> doc_items (s ! b) \<or> y \<in> set (p @ [x])"
      using doc_items_replace[of y "s ! b" "p @ [x]"] by simp
    then show "Q y"
      using q l b ok by (auto dest: items_ok_nth doc_items_last)
  qed
qed

lemma items_ok_Line_append:
  assumes ok: "items_ok Q s"
    and l: "content (s ! b) \<noteq> [] \<and> last (content (s ! b)) = Paragraph p \<and> p \<noteq> [] \<and> last p = Line sls"
    and q: "Q (Line sls) \<Longrightarrow> Q (Line (sls @ [sl]))"
  shows "items_ok Q (Line_append s (b, p, sls) sl)"
  unfolding Line_append_def prod.case
proof (rule items_ok_upd[OF ok], intro ballI)
  fix y
  assume b: "b < length s"
    and "y \<in> doc_items ((s ! b)\<lparr>content := butlast (content (s ! b)) @ [Paragraph (butlast p @ [Line (sls @ [sl])])]\<rparr>)"
  then have "y \<in> doc_items (s ! b) \<or> y \<in> set (butlast p @ [Line (sls @ [sl])])"
    by (intro doc_items_replace)
  moreover have p: "\<forall>z\<in>set p. Q z"
    using l b ok by (auto dest: items_ok_nth doc_items_last)
  moreover have "Line sls \<in> set p" using l by (metis last_in_set)
  ultimately show "Q y"
    using q b ok by (auto dest: items_ok_nth in_set_butlastD)
qed

lemma items_ok_Document_append:
  assumes ok: "items_ok Q s" and e: "\<forall>x\<in>set (elem_items e). Q x"
  shows "items_ok Q (Document_append s a e)"
  unfolding Document_append_def
proof (rule items_ok_upd[OF ok], intro ballI)
  fix y
  assume "a < length s" and "y \<in> doc_items ((s ! a)\<lparr>content := content (s ! a) @ [e]\<rparr>)"
  then show "Q y"
    using e ok by (auto dest!: doc_items_snoc dest: items_ok_nth)
qed

lemma items_ok_Document_pop:
  assumes ok: "items_ok Q s" and p: "Document_pop s a = Inr (e, s')"
  shows "items_ok Q s'" and "a < length s \<Longrightarrow> \<forall>x\<in>set (elem_items e). Q x"
proof -
  from p have e: "e = last (content (s ! a))" and ne: "content (s ! a) \<noteq> []"
    and s': "s' = upd s a (\<lambda>d. d\<lparr>content := butlast (content d)\<rparr>)"
    by (auto simp: Document_pop_def split: if_splits)
  show "items_ok Q s'"
    unfolding s' using ok
    by (intro items_ok_upd[OF ok]) (auto dest!: doc_items_butlast dest: items_ok_nth)
  show "\<forall>x\<in>set (elem_items e). Q x" if "a < length s"
    using that ok e ne by (auto dest!: doc_items_content[rotated] dest: items_ok_nth)
qed

text \<open>The size of the store along an iteration.\<close>

lemma pop_scope_length: "pop_scope st = Inr st' \<Longrightarrow> length (store st') = length (store st)"
  by (auto simp: pop_scope_def Let_def Document_pop_def Document_append_def
      split: sum.splits if_splits prod.splits)

lemma pop_scopes_length: "pop_scopes st tx = Inr st' \<Longrightarrow> length (store st') = length (store st)"
proof (induction st tx rule: pop_scopes.induct)
  case (1 st tx)
  show ?case
  proof (cases "length (stack st) > 1 \<and> length tx > 0 \<and> \<not> blank (take (total_indent st) tx)")
    case True
    with "1.prems" obtain st1 where a: "pop_scope st = Inr st1" and b: "pop_scopes st1 tx = Inr st'"
      by (subst (asm) pop_scopes.simps) (auto split: sum.splits)
    from "1.IH"[OF _ a b] True pop_scope_length[OF a] show ?thesis by simp
  next
    case False
    with "1.prems" show ?thesis by (subst (asm) pop_scopes.simps) auto
  qed
qed

lemma claim_space_length:
  "claim_space st tx ref = Inr (st', tx') \<Longrightarrow> length (store st') = length (store st)"
  by (auto simp: claim_space_def Let_def split: sum.splits if_splits)

lemma title_rule_length: "title_rule st i = Inr (st', j) \<Longrightarrow> length (store st') = length (store st)"
  by (auto simp: title_rule_def Document_pop_def Document_append_def split: sum.splits if_splits)

lemma heading_rule_length:
  "heading_rule st i level pad ttl = Inr (st', j) \<Longrightarrow> length (store st') = Suc (length (store st))"
  by (auto simp: heading_rule_def Let_def Document_pop_def Document_append_def
      split: sum.splits if_splits prod.splits)

lemma block_rule_length:
  "block_rule lines i st l = Inr (st', j) \<Longrightarrow> length (store st') = length (store st)"
  by (auto simp: block_rule_def Paragraph_append_def split: sum.splits if_splits prod.splits)

lemma aside_rule_length:
  "aside_rule st tx = Inr (st', tx') \<Longrightarrow> length (store st) \<le> length (store st')"
  by (auto simp: aside_rule_def Let_def Paragraph_append_def split: option.splits sum.splits prod.splits)

lemma aside_rule_suffix: "aside_rule st tx = Inr (st', tx') \<Longrightarrow> \<exists>k. tx' = drop k tx"
  by (auto simp: aside_rule_def Let_def split: option.splits sum.splits prod.splits
      intro: exI[of _ 0])

lemma list_rule_length:
  "list_rule st tx = Inr (st', tx') \<Longrightarrow>
   (re_list tx = None \<and> st' = st) \<or> length (store st') = Suc (length (store st))"
  by (auto simp: list_rule_def Let_def Paragraph_append_def split: option.splits sum.splits prod.splits)

lemma blank_rule_length:
  "blank_rule st i = Inr (st', j) \<Longrightarrow> length (store st') = length (store st)"
  by (auto simp: blank_rule_def Document_append_def split: sum.splits if_splits prod.splits)

lemma text_rule_length:
  "text_rule st tx i = Inr (st', j) \<Longrightarrow> length (store st') = length (store st)"
  by (auto simp: text_rule_def line_rule_def Paragraph_append_def Line_append_def
      split: sum.splits if_splits prod.splits option.splits)

text \<open>What each rule does to the items.\<close>

lemma pop_scope_items:
  assumes wf: "wf st" and len: "1 < length (stack st)" and ok: "items_ok Q (store st)"
    and p: "pop_scope st = Inr st'"
  shows "items_ok Q (store st')"
proof -
  let ?prev = "last (stack st)"
  consider "store st' = store st"
    | x s2 a where "Document_pop (store st) ?prev = Inr (x, s2)" "store st' = Document_append s2 a x"
    using p by (auto simp: pop_scope_def Let_def split: sum.splits if_splits prod.splits)
  then show ?thesis
  proof cases
    case 1
    with ok show ?thesis by simp
  next
    case 2
    note d = items_ok_Document_pop[OF ok 2(1)]
    from d(2)[OF wf_pop_stack(4)[OF wf len]] d(1) show ?thesis
      unfolding 2(2) by (intro items_ok_Document_append)
  qed
qed

lemma pop_scopes_items:
  "wf st \<Longrightarrow> items_ok Q (store st) \<Longrightarrow> pop_scopes st tx = Inr st' \<Longrightarrow> items_ok Q (store st')"
proof (induction st tx rule: pop_scopes.induct)
  case (1 st tx)
  show ?case
  proof (cases "length (stack st) > 1 \<and> length tx > 0 \<and> \<not> blank (take (total_indent st) tx)")
    case True
    with "1.prems"(3) obtain st1 where a: "pop_scope st = Inr st1" and b: "pop_scopes st1 tx = Inr st'"
      by (subst (asm) pop_scopes.simps) (auto split: sum.splits)
    from True have len: "1 < length (stack st)" by simp
    from "1.IH"[OF _ a pop_scope_wf[OF "1.prems"(1) len a] pop_scope_items[OF "1.prems"(1) len "1.prems"(2) a] b] True
    show ?thesis by simp
  next
    case False
    with "1.prems" show ?thesis by (subst (asm) pop_scopes.simps) auto
  qed
qed

lemma claim_space_items:
  assumes ok: "items_ok Q (store st)" and c: "claim_space st tx ref = Inr (st', tx')"
  shows "items_ok Q (store st')"
proof -
  from c consider "st' = st"
    | n where "st' = st\<lparr>store := upd (store st) (document st) (\<lambda>d. d\<lparr>indent := indent d + n\<rparr>)\<rparr>"
    by (auto simp: claim_space_def Let_def split: sum.splits if_splits)
  then show ?thesis
  proof cases
    case 1
    with ok show ?thesis by simp
  next
    case 2
    show ?thesis
      unfolding 2 using ok by (auto intro!: items_ok_upd dest: items_ok_nth)
  qed
qed

lemma title_rule_items:
  assumes ok: "items_ok Q (store st)" and t: "title_rule st i = Inr (st', j)"
  shows "items_ok Q (store st')"
proof -
  let ?a = "document st"
  from t obtain x s1 where p: "Document_pop (store st) ?a = Inr (x, s1)"
    and st': "store st' = Document_append (upd s1 ?a (\<lambda>d. d\<lparr>title := Some x\<rparr>)) ?a (Paragraph [])"
    by (auto simp: title_rule_def split: sum.splits prod.splits)
  note d = items_ok_Document_pop[OF ok p]
  from p have len: "length s1 = length (store st)"
    by (auto simp: Document_pop_def split: if_splits)
  have "items_ok Q (upd s1 ?a (\<lambda>d. d\<lparr>title := Some x\<rparr>))"
  proof (rule items_ok_upd[OF d(1)], intro ballI)
    fix y
    assume a: "?a < length s1" and y: "y \<in> doc_items ((s1 ! ?a)\<lparr>title := Some x\<rparr>)"
    then have "y \<in> doc_items (s1 ! ?a) \<or> y \<in> set (elem_items x)"
      by (auto simp: doc_items_def)
    then show "Q y"
      using d(2) a len d(1) by (auto dest: items_ok_nth)
  qed
  then show ?thesis unfolding st' by (intro items_ok_Document_append) simp_all
qed

lemma heading_rule_items:
  assumes ok: "items_ok Q (store st)" and h: "heading_rule st i level pad ttl = Inr (st', j)"
  shows "items_ok Q (store st')"
proof -
  from h obtain s1 n v where s1: "items_ok Q s1"
    and st': "store st' = Document_append (s1 @ [new_Document n]) (document st) (Section level ttl v)"
    using ok
    by (auto simp: heading_rule_def Let_def split: sum.splits if_splits prod.splits
        dest: items_ok_Document_pop(1))
  show ?thesis
    unfolding st' by (intro items_ok_Document_append items_ok_alloc s1) simp
qed

lemma block_loop_words:
  "block_loop lines ind j acc = Inr (blk, k) \<Longrightarrow>
   \<forall>sl\<in>set acc. \<exists>n t. sl = SourceLine n [Word t BLOCK] \<Longrightarrow>
   \<forall>sl\<in>set blk. \<exists>n t. sl = SourceLine n [Word t BLOCK]"
proof (induction lines ind j acc rule: block_loop.induct)
  case (1 lines ind j acc)
  show ?case
  proof (cases "re_block_end (drop ind (lines ! j))")
    case True
    with "1.prems" show ?thesis by (subst (asm) block_loop.simps) auto
  next
    case False
    with "1.prems"(1) have n: "Suc j < length lines"
      and b: "block_loop lines ind (Suc j) (acc @ [SourceLine j [Word (drop ind (lines ! j)) BLOCK]]) = Inr (blk, k)"
      by (subst (asm) block_loop.simps; auto split: if_splits)+
    from "1.IH"[OF False n b] "1.prems"(2) show ?thesis by auto
  qed
qed

lemma block_rule_items:
  assumes ok: "items_ok Q (store st)" and b: "block_rule lines i st l = Inr (st', j)"
    and q: "\<forall>blk. (\<forall>sl\<in>set blk. \<exists>n t. sl = SourceLine n [Word t BLOCK]) \<longrightarrow> Q (Block l blk)"
  shows "items_ok Q (store st')"
proof -
  from b obtain blk k bp where bl: "block_loop lines (total_indent st) (Suc i) [] = Inr (blk, k)"
    and dp: "Document_paragraph (store st) (document st) = Inr bp"
    and st': "store st' = Paragraph_append (store st) bp (Block l blk)"
    by (auto simp: block_rule_def split: sum.splits if_splits prod.splits)
  from block_loop_words[OF bl] q have "Q (Block l blk)" by simp
  then show ?thesis unfolding st' by (intro items_ok_Paragraph_append[OF ok dp])
qed

lemma aside_rule_items:
  assumes ok: "items_ok Q (store st)" and a: "aside_rule st tx = Inr (st', tx')"
    and q: "\<forall>k v. Q (Aside k v)"
  shows "items_ok Q (store st')"
  using a ok q
  by (auto simp: aside_rule_def Let_def split: option.splits sum.splits prod.splits
      intro!: items_ok_Paragraph_append items_ok_alloc)

lemma list_rule_items:
  assumes ok: "items_ok Q (store st)" and a: "list_rule st tx = Inr (st', tx')"
    and q: "\<forall>n. re_list tx = Some n \<longrightarrow> Q (List (take n tx) (length (store st)))"
  shows "items_ok Q (store st')"
  using a ok q
  by (auto simp: list_rule_def Let_def split: option.splits sum.splits prod.splits
      intro!: items_ok_Paragraph_append items_ok_alloc)

lemma blank_rule_items:
  "items_ok Q (store st) \<Longrightarrow> blank_rule st i = Inr (st', j) \<Longrightarrow> items_ok Q (store st')"
  by (auto simp: blank_rule_def split: sum.splits if_splits prod.splits
      intro!: items_ok_Document_append)

lemma line_rule_items:
  "items_ok Q (store st) \<Longrightarrow> line_rule st tx ref = Inr (st', tx') \<Longrightarrow> Q (Line []) \<Longrightarrow>
   items_ok Q (store st')"
  by (auto simp: line_rule_def split: sum.splits if_splits prod.splits
      intro!: items_ok_Paragraph_append)

lemma text_rule_items:
  assumes ok: "items_ok Q (store st)" and t: "text_rule st tx i = Inr (st', j)"
    and q0: "Q (Line [])"
    and q: "\<forall>sls sl tx. Q (Line sls) \<longrightarrow> inline (Suc i) tx = Inr sl \<longrightarrow> Q (Line (sls @ [sl]))"
  shows "items_ok Q (store st')"
proof -
  from t obtain st1 tx1 sl b p b' p' sls where lr: "line_rule st tx (Suc i) = Inr (st1, tx1)"
    and il: "inline (Suc i) tx1 = Inr sl"
    and dp: "Document_paragraph (store st1) (document st1) = Inr (b, p)"
    and pl: "Paragraph_line (Suc (length (store st1))) (store st1) (b, p) = Inr (Some (b', p', sls))"
    and st': "store st' = Line_append (store st1) (b', p', sls) sl"
    by (auto simp: text_rule_def split: sum.splits prod.splits option.splits)
  note ok1 = line_rule_items[OF ok lr q0]
  note l = Paragraph_line_last[OF pl Document_paragraph_last[OF dp]]
  show ?thesis
    unfolding st' using q il by (intro items_ok_Line_append[OF ok1 l]) blast
qed

text \<open>
  One iteration keeps a property of the items when the items it can create have it: an
  empty line, an aside, a list item whose marker is the text the list pattern matched in
  this line and whose document is new, a block of raw lines, and a line with one more
  source line from the tokenizer.
\<close>

lemma iteration_items:
  assumes wf: "wf st" and ok: "items_ok Q (store st)" and it: "iteration lines i st = Inr (st', j)"
    and qline: "Q (Line [])"
    and qaside: "\<forall>k v. Q (Aside k v)"
    and qlist: "\<forall>k n v. re_list (drop k (lines ! i)) = Some n \<longrightarrow> length (store st) \<le> v \<longrightarrow>
                  v < length (store st') \<longrightarrow> Q (List (take n (drop k (lines ! i))) v)"
    and qblock: "\<forall>l blk. (\<forall>sl\<in>set blk. \<exists>n t. sl = SourceLine n [Word t BLOCK]) \<longrightarrow> Q (Block l blk)"
    and qext: "\<forall>sls sl tx. Q (Line sls) \<longrightarrow> inline (Suc i) tx = Inr sl \<longrightarrow> Q (Line (sls @ [sl]))"
  shows "items_ok Q (store st')" and "length (store st) \<le> length (store st')"
proof -
  from it obtain st1 st2 tx where
    p: "pop_scopes st (lines ! i) = Inr st1" and
    c: "claim_space st1 (drop (total_indent st1) (lines ! i)) (Suc i) = Inr (st2, tx)"
    by (auto simp: iteration_def split: sum.splits prod.splits)
  have ok2: "items_ok Q (store st2)"
    by (rule claim_space_items[OF pop_scopes_items[OF wf ok p] c])
  have len2: "length (store st2) = length (store st)"
    using pop_scopes_length[OF p] claim_space_length[OF c] by simp
  from claim_space_suffix[OF c] obtain k2 where tx: "tx = drop k2 (lines ! i)"
    by (auto simp: drop_drop)
  from it p c
  consider "title_rule st2 i = Inr (st', j)"
    | level pad ttl where "heading_rule st2 i level pad ttl = Inr (st', j)"
    | l where "block_rule lines i st2 l = Inr (st', j)"
    | st3 tx3 st4 tx4 where "aside_rule st2 tx = Inr (st3, tx3)" "list_rule st3 tx3 = Inr (st4, tx4)"
        "blank_rule st4 i = Inr (st', j) \<or> text_rule st4 tx4 i = Inr (st', j)"
    by (auto simp: iteration_def split: sum.splits prod.splits if_splits option.splits)
  then have "items_ok Q (store st') \<and> length (store st) \<le> length (store st')"
  proof cases
    case 1
    with ok2 len2 show ?thesis by (auto dest: title_rule_items title_rule_length)
  next
    case 2
    with ok2 len2 show ?thesis by (auto dest: heading_rule_items heading_rule_length)
  next
    case 3
    from block_rule_items[OF ok2 3] qblock block_rule_length[OF 3] len2 show ?thesis by simp
  next
    case 4
    have ok3: "items_ok Q (store st3)" by (rule aside_rule_items[OF ok2 4(1) qaside])
    note len3 = aside_rule_length[OF 4(1)]
    from aside_rule_suffix[OF 4(1)] tx obtain k3 where tx3: "tx3 = drop k3 (lines ! i)"
      by (auto simp: drop_drop)
    have len': "length (store st') = length (store st4)"
      using 4(3) by (auto dest: blank_rule_length text_rule_length)
    have len4: "length (store st3) \<le> length (store st4)"
      using list_rule_length[OF 4(2)] by auto
    have "\<forall>n. re_list tx3 = Some n \<longrightarrow> Q (List (take n tx3) (length (store st3)))"
    proof (intro allI impI)
      fix n assume n: "re_list tx3 = Some n"
      with list_rule_length[OF 4(2)] have "length (store st4) = Suc (length (store st3))" by auto
      with len' len3 len2 n qlist show "Q (List (take n tx3) (length (store st3)))"
        unfolding tx3 by simp
    qed
    then have ok4: "items_ok Q (store st4)" by (intro list_rule_items[OF ok3 4(2)])
    from 4(3) have "items_ok Q (store st')"
    proof
      assume "blank_rule st4 i = Inr (st', j)"
      then show ?thesis by (rule blank_rule_items[OF ok4])
    next
      assume "text_rule st4 tx4 i = Inr (st', j)"
      then show ?thesis by (rule text_rule_items[OF ok4 _ qline qext])
    qed
    with len' len4 len3 len2 show ?thesis by simp
  qed
  then show "items_ok Q (store st')" and "length (store st) \<le> length (store st')" by simp_all
qed

lemma parse_loop_items:
  "wf st \<Longrightarrow> items_ok Q (store st) \<Longrightarrow> parse_loop lines i st = Inr st' \<Longrightarrow>
   Q (Line []) \<Longrightarrow> \<forall>k v. Q (Aside k v) \<Longrightarrow>
   \<forall>i k n v. i < length lines \<longrightarrow> re_list (drop k (lines ! i)) = Some n \<longrightarrow>
      Q (List (take n (drop k (lines ! i))) v) \<Longrightarrow>
   \<forall>l blk. (\<forall>sl\<in>set blk. \<exists>n t. sl = SourceLine n [Word t BLOCK]) \<longrightarrow> Q (Block l blk) \<Longrightarrow>
   \<forall>i sls sl tx. Q (Line sls) \<longrightarrow> inline (Suc i) tx = Inr sl \<longrightarrow> Q (Line (sls @ [sl])) \<Longrightarrow>
   items_ok Q (store st')"
proof (induction lines i st rule: parse_loop.induct)
  case (1 lines i st)
  note qline = "1.prems"(4) and qaside = "1.prems"(5) and qlist = "1.prems"(6)
    and qblock = "1.prems"(7) and qext = "1.prems"(8)
  show ?case
  proof (cases "i < length lines")
    case True
    with "1.prems"(3) obtain st1 j where a: "iteration lines i st = Inr (st1, j)"
      and b: "parse_loop lines (Suc j) st1 = Inr st'"
      by (subst (asm) parse_loop.simps) (auto split: sum.splits)
    from iteration_good[OF "1.prems"(1) a] have wf1: "wf st1" by (simp add: good_def)
    have ql: "\<forall>k n v. re_list (drop k (lines ! i)) = Some n \<longrightarrow> length (store st) \<le> v \<longrightarrow>
                  v < length (store st1) \<longrightarrow> Q (List (take n (drop k (lines ! i))) v)"
      using qlist True by blast
    have qe: "\<forall>sls sl tx. Q (Line sls) \<longrightarrow> inline (Suc i) tx = Inr sl \<longrightarrow> Q (Line (sls @ [sl]))"
      using qext by blast
    have ok1: "items_ok Q (store st1)"
      by (rule iteration_items(1)[OF "1.prems"(1,2) a qline qaside ql qblock qe])
    from "1.IH"[OF True a _ wf1 ok1 b qline qaside qlist qblock qext] show ?thesis by simp
  next
    case False
    with "1.prems" show ?thesis by (subst (asm) parse_loop.simps) simp
  qed
qed

lemma items_ok_initial: "items_ok Q (store initial)"
  by (simp add: items_ok_def store_items_def doc_items_def initial_def new_Document_def)

lemma parse_items:
  assumes "parse lines = Inr (s, r)"
    and "Q (Line [])"
    and "\<forall>k v. Q (Aside k v)"
    and "\<forall>i k n v. i < length lines \<longrightarrow> re_list (drop k (lines ! i)) = Some n \<longrightarrow>
                  Q (List (take n (drop k (lines ! i))) v)"
    and "\<forall>l blk. (\<forall>sl\<in>set blk. \<exists>n t. sl = SourceLine n [Word t BLOCK]) \<longrightarrow> Q (Block l blk)"
    and "\<forall>i sls sl tx. Q (Line sls) \<longrightarrow> inline (Suc i) tx = Inr sl \<longrightarrow> Q (Line (sls @ [sl]))"
  shows "items_ok Q s"
proof -
  from assms(1) obtain st where l: "parse_loop lines 0 initial = Inr st" and s: "s = store st"
    by (auto simp: parse_def split: sum.splits)
  show ?thesis
    unfolding s by (rule parse_loop_items[OF wf_initial items_ok_initial l assms(2-6)])
qed

section \<open>The tokenizer and \<^verbatim>\<open>ALIGN\<close>\<close>

lemma mapping_no_align:
  "mapping c = Some a \<Longrightarrow> a AND ALIGN = 0 \<and> (a OR WITH_SPACES) AND ALIGN = 0"
  by (auto simp: mapping_def Modifier_defs split: if_splits)

lemma xor_no_align: "m AND ALIGN = 0 \<Longrightarrow> a AND ALIGN = 0 \<Longrightarrow> (m XOR a) AND ALIGN = 0"
  by (simp add: bit.conj_xor_distrib2)

lemma words_loop_no_align:
  "words_loop ref m acc ws = Inr out \<Longrightarrow> m AND ALIGN = 0 \<Longrightarrow>
   \<forall>w\<in>set acc. modifier w AND ALIGN = 0 \<Longrightarrow> \<forall>w\<in>set out. modifier w AND ALIGN = 0"
proof (induction ws arbitrary: m acc)
  case Nil
  then show ?case by simp
next
  case (Cons w ws)
  show ?case
  proof (cases "length w = 0")
    case True
    with Cons.prems Cons.IH[of m acc] show ?thesis by simp
  next
    case False
    show ?thesis
    proof (cases "mapping (hd w)")
      case (Some a)
      let ?a = "if length w = 2 \<or> a = QUOTES then a OR WITH_SPACES else a"
      from Cons.prems(1) False Some have l: "words_loop ref (m XOR ?a) acc ws = Inr out" by simp
      have "?a AND ALIGN = 0" using mapping_no_align[OF Some] by simp
      from Cons.IH[OF l xor_no_align[OF Cons.prems(2) this] Cons.prems(3)] show ?thesis .
    next
      case None
      with Cons.prems(1,2) False
      have l: "words_loop ref m (acc @ [Word w m]) ws = Inr out"
        by (simp split: if_splits)
      from Cons.IH[OF l Cons.prems(2)] Cons.prems(2,3) show ?thesis by simp
    qed
  qed
qed

lemma inline_no_align:
  "inline ref tx = Inr sl \<Longrightarrow> list_all (\<lambda>w. modifier w AND ALIGN = 0) (words sl)"
proof -
  assume "inline ref tx = Inr sl"
  then obtain out where l: "words_loop ref NONE [] (re_split [] (rstrip tx)) = Inr out"
    and sl: "sl = SourceLine ref out"
    by (auto simp: inline_def split: sum.splits)
  from words_loop_no_align[OF l] show ?thesis by (simp add: sl list_all_iff NONE_def)
qed

lemma parse_no_align:
  assumes "parse lines = Inr (s, r)"
  shows "items_ok no_align s"
proof (rule parse_items[OF assms])
  show "no_align (Line [])" by (simp add: no_align_def)
  show "\<forall>k v. no_align (Aside k v)" by (simp add: no_align_def)
  show "\<forall>i k n v. i < length lines \<longrightarrow> re_list (drop k (lines ! i)) = Some n \<longrightarrow>
          no_align (List (take n (drop k (lines ! i))) v)" by (simp add: no_align_def)
  show "\<forall>l blk. (\<forall>sl\<in>set blk. \<exists>n t. sl = SourceLine n [Word t BLOCK]) \<longrightarrow> no_align (Block l blk)"
    by (auto simp: no_align_def list_all_iff Modifier_defs)
  show "\<forall>i sls sl tx. no_align (Line sls) \<longrightarrow> inline (Suc i) tx = Inr sl \<longrightarrow> no_align (Line (sls @ [sl]))"
    by (auto simp: no_align_def dest: inline_no_align)
qed

section \<open>Scenario A: a heading and its body\<close>

text \<open>
  C1: for the two lines \<^verbatim>\<open># Title\<close> and \<^verbatim>\<open>Body text.\<close> (the second not indented) the
  claim is that \<^verbatim>\<open>parse\<close> returns the root document with one section that holds the body.
  The code raises instead. The second line pops the section's scope, the root document is
  then asked whether it is empty, and \<^verbatim>\<open>Document.empty\<close> calls \<^verbatim>\<open>empty\<close> on the \<^verbatim>\<open>Section\<close>,
  which has no such method.
\<close>

theorem C1_unindented_body_raises:
  "parse [''# Title'', ''Body text.''] = Inl AttributeError"
  by code_simp

text \<open>
  What the code does once \<^verbatim>\<open>Document.empty\<close> returns: with a first paragraph before the
  heading the test stops at that paragraph, the line that is not indented goes through
  \<^verbatim>\<open>Section.paragraph\<close> into the document of the section, and the result is the tree of the
  claim. So does the body that is indented by the width 2 of the section's scope. In both
  the white space between the two words is a word of its own.
\<close>

lemma scenario_A_after_intro:
  "parse [''intro'', ''# Title'', ''Body text.''] =
     Inr ([\<lparr>indent = 0, title = None,
            content = [Paragraph [Line [SourceLine 1 [Word ''intro'' NONE]]],
                       Section 1 (Some ''Title'') 1]\<rparr>,
           \<lparr>indent = 2, title = None,
            content = [Paragraph [Line [SourceLine 3
                         [Word ''Body'' NONE, Word '' '' NONE, Word ''text.'' NONE]]]]\<rparr>],
          0)"
  by code_simp

lemma scenario_A_indented_body:
  "parse [''# Title'', ''  Body text.''] =
     Inr ([\<lparr>indent = 0, title = None, content = [Section 1 (Some ''Title'') 1]\<rparr>,
           \<lparr>indent = 2, title = None,
            content = [Paragraph [Line [SourceLine 2
                         [Word ''Body'' NONE, Word '' '' NONE, Word ''text.'' NONE]]]]\<rparr>],
          0)"
  by code_simp

section \<open>Blank lines\<close>

text \<open>
  C6: for a blank line (empty or white space only) the loop that pops documents pops
  none: it returns the state it was given, stack and store, whatever the stack holds.
\<close>

theorem C6_blank_line_pops_no_scope:
  "blank tx \<Longrightarrow> pop_scopes st tx = Inr st"
  by (rule pop_scopes_blank)

theorem C6_witness:
  "blank ''   '' \<and>
   pop_scopes \<lparr>store = [new_Document 0, new_Document 2, new_Document 4], stack = [0, 1, 2]\<rparr> ''   ''
     = Inr \<lparr>store = [new_Document 0, new_Document 2, new_Document 4], stack = [0, 1, 2]\<rparr>"
proof -
  have b: "blank ''   ''" by (simp add: blank_def is_space_def)
  from C6_blank_line_pops_no_scope[OF b] b show ?thesis by simp
qed

lemma blank_run_nth:
  assumes "i + n \<le> length lines" and "list_all blank (take n (drop i lines))"
  shows "\<forall>k. i \<le> k \<and> k < i + n \<longrightarrow> blank (lines ! k)"
proof (intro allI impI)
  fix k assume k: "i \<le> k \<and> k < i + n"
  then have kn: "k - i < n" and ik: "i + (k - i) = k" by arith+
  have "take n (drop i lines) ! (k - i) = drop i lines ! (k - i)"
    by (rule nth_take[OF kn])
  also have "\<dots> = lines ! (i + (k - i))"
    using assms(1) by (intro nth_drop) arith
  finally have "lines ! k = take n (drop i lines) ! (k - i)" by (simp add: ik)
  moreover have "k - i < length (take n (drop i lines))" using kn assms(1) by simp
  ultimately show "blank (lines ! k)"
    using assms(2) by (metis list_all_length)
qed

text \<open>
  C4: let the parser be before line \<open>i\<close>, inside a paragraph (the current paragraph of the
  active document is not empty), and let the next \<open>n \<ge> 1\<close> lines be blank. The first of them
  appends one empty paragraph to the active document and changes nothing else; each of the
  others leaves the state as it is; so the parse goes on after the run from the state with
  this one paragraph break.
\<close>

theorem C4_blank_run_one_break:
  assumes "reach lines i st"
    and "Document_paragraph (store st) (document st) = Inr (b, p)" and "p \<noteq> []"
    and "0 < n" and "i + n \<le> length lines" and "list_all blank (take n (drop i lines))"
  shows "iteration lines i st = Inr (paragraph_break st, i) \<and>
         list_all (\<lambda>k. iteration lines k (paragraph_break st) = Inr (paragraph_break st, k))
           [Suc i..<i + n] \<and>
         parse_loop lines i st = parse_loop lines (i + n) (paragraph_break st)"
proof -
  note bl = blank_run_nth[OF assms(5,6)]
  from bl assms(4) have b0: "blank (lines ! i)" by simp
  note f = blank_first[OF reach_good[OF assms(1)] b0 assms(2,3)]
  have nx: "list_all (\<lambda>k. iteration lines k (paragraph_break st) = Inr (paragraph_break st, k))
           [Suc i..<i + n]"
    using bl by (auto simp: list_all_iff intro!: blank_next[OF _ f(2,3)])
  have "parse_loop lines i st = parse_loop lines (Suc i) (paragraph_break st)"
    using assms(4,5) by (subst parse_loop.simps) (simp add: f(1))
  also have "\<dots> = parse_loop lines (Suc i + (n - 1)) (paragraph_break st)"
    using assms(4,5) bl by (intro blank_run[OF f(2,3)]) auto
  finally show ?thesis using f(1) nx assms(4) by simp
qed

theorem C4_witness:
  "parse_loop [''a'', '''', ''  '', ''b''] 1
     \<lparr>store = [\<lparr>indent = 0, title = None,
                 content = [Paragraph [Line [SourceLine 1 [Word ''a'' 0]]]]\<rparr>], stack = [0]\<rparr>
   = parse_loop [''a'', '''', ''  '', ''b''] 3
      \<lparr>store = [\<lparr>indent = 0, title = None,
                  content = [Paragraph [Line [SourceLine 1 [Word ''a'' 0]]], Paragraph []]\<rparr>],
       stack = [0]\<rparr>"
proof -
  let ?L = "[''a'', '''', ''  '', ''b'']"
  let ?st = "\<lparr>store = [\<lparr>indent = 0, title = None,
                 content = [Paragraph [Line [SourceLine 1 [Word ''a'' 0]]]]\<rparr>], stack = [0]\<rparr>"
  have it: "iteration ?L 0 initial = Inr (?st, 0)" by code_simp
  have r: "reach ?L 1 ?st" using reach_step[OF reach_initial _ it] by simp
  have dp: "Document_paragraph (store ?st) (document ?st) = Inr (0, [Line [SourceLine 1 [Word ''a'' 0]]])"
    by code_simp
  have bl: "list_all blank (take 2 (drop 1 ?L))" by code_simp
  have pb: "paragraph_break ?st = \<lparr>store = [\<lparr>indent = 0, title = None,
                  content = [Paragraph [Line [SourceLine 1 [Word ''a'' 0]]], Paragraph []]\<rparr>],
       stack = [0]\<rparr>" by code_simp
  from C4_blank_run_one_break[OF r dp, of 2] bl pb show ?thesis
    by (simp add: numeral_3_eq_3)
qed

section \<open>Trailing empty paragraphs\<close>



section \<open>Leading white space in an empty document\<close>

text \<open>
  C7: let the parser be before line \<open>i\<close>, let the loop that pops documents leave the state
  \<open>st1\<close> whose active document is empty, and let the text after the indent is stripped
  start with white space. If the stack holds one document, the root, \<^verbatim>\<open>parse\<close> raises
  \<^verbatim>\<open>ValueError\<close> with the message \<^verbatim>\<open>Invalid space on root document\<close> at this line. If the
  active document is a nested one, it takes the leading white space: its indent grows by
  the length of that white space, which is stripped from the text.
\<close>

theorem C7_leading_space_in_empty_document:
  assumes "reach lines i st" and "i < length lines"
    and "pop_scopes st (lines ! i) = Inr st1"
    and "Document_empty (store st1 ! document st1) = Inr True"
    and "tx = drop (total_indent st1) (lines ! i)" and "tx \<noteq> []" and "is_space (hd tx)"
  shows "(length (stack st1) = 1 \<longrightarrow>
            parse lines = Inl (ValueError ''Invalid space on root document'' (Suc i))) \<and>
         (length (stack st1) \<noteq> 1 \<longrightarrow>
            claim_space st1 tx (Suc i) =
              Inr (st1\<lparr>store := upd (store st1) (document st1)
                      (\<lambda>d. d\<lparr>indent := indent d + length (takeWhile is_space tx)\<rparr>)\<rparr>,
                   drop (length (takeWhile is_space tx)) tx))"
proof (intro conjI impI)
  from assms(6,7) have pos: "0 < length (takeWhile is_space tx)" by (cases tx) auto
  {
    assume one: "length (stack st1) = 1"
    have c: "claim_space st1 tx (Suc i) = Inl (ValueError ''Invalid space on root document'' (Suc i), st1)"
      using assms(4) pos one by (simp add: claim_space_def)
    have it: "iteration lines i st = Inl (ValueError ''Invalid space on root document'' (Suc i), st1, i)"
      using assms(3) c by (simp add: iteration_def assms(5)[symmetric])
    from assms(5,6) have "total_indent st1 < length (lines ! i)" by simp
    then have "parse_loop lines i st = Inl (ValueError ''Invalid space on root document'' (Suc i))"
      using assms(2) it by (subst parse_loop.simps) (simp add: handler_def)
    then show "parse lines = Inl (ValueError ''Invalid space on root document'' (Suc i))"
      using reach_parse_loop[OF assms(1)] by (simp add: parse_def)
  }
  {
    assume "length (stack st1) \<noteq> 1"
    then show "claim_space st1 tx (Suc i) =
              Inr (st1\<lparr>store := upd (store st1) (document st1)
                      (\<lambda>d. d\<lparr>indent := indent d + length (takeWhile is_space tx)\<rparr>)\<rparr>,
                   drop (length (takeWhile is_space tx)) tx)"
      using assms(4) by (simp add: claim_space_def Let_def)
  }
qed

theorem C7_witness:
  "parse [''  x''] = Inl (ValueError ''Invalid space on root document'' (Suc 0)) \<and>
   claim_space
     \<lparr>store = [\<lparr>indent = 0, title = None, content = [Paragraph [Aside PLAIN 1]]\<rparr>,
               \<lparr>indent = 2, title = None, content = [Paragraph []]\<rparr>], stack = [0, 1]\<rparr>
     ''  x'' (Suc 1) =
   Inr (\<lparr>store = [\<lparr>indent = 0, title = None, content = [Paragraph [Aside PLAIN 1]]\<rparr>,
                  \<lparr>indent = 4, title = None, content = [Paragraph []]\<rparr>], stack = [0, 1]\<rparr>,
        ''x'')"
proof -
  have sp: "is_space (hd ''  x'')" by (simp add: is_space_def)
  have ne: "''  x'' \<noteq> []" by simp
  have i0: "0 < length [''  x'']" by simp
  have p0: "pop_scopes initial ([''  x''] ! 0) = Inr initial" by code_simp
  have e0: "Document_empty (store initial ! document initial) = Inr True" by code_simp
  have t0: "''  x'' = drop (total_indent initial) ([''  x''] ! 0)" by code_simp
  have l0: "length (stack initial) = 1" by code_simp
  from C7_leading_space_in_empty_document[OF reach_initial i0 p0 e0 t0 ne sp] l0
  have a: "parse [''  x''] = Inl (ValueError ''Invalid space on root document'' (Suc 0))"
    by blast
  let ?L = "[''> '', ''    x'']"
  let ?st = "\<lparr>store = [\<lparr>indent = 0, title = None, content = [Paragraph [Aside PLAIN 1]]\<rparr>,
               \<lparr>indent = 2, title = None, content = [Paragraph []]\<rparr>], stack = [0, 1]\<rparr>"
  have it: "iteration ?L 0 initial = Inr (?st, 0)" by code_simp
  have "reach ?L (Suc 0) ?st" by (rule reach_step[OF reach_initial _ it]) simp
  then have r: "reach ?L 1 ?st" by simp
  have i1: "1 < length ?L" by simp
  have p1: "pop_scopes ?st (?L ! 1) = Inr ?st" by code_simp
  have e1: "Document_empty (store ?st ! document ?st) = Inr True" by code_simp
  have t1: "''  x'' = drop (total_indent ?st) (?L ! 1)" by code_simp
  have l1: "length (stack ?st) \<noteq> 1" by code_simp
  have u: "?st\<lparr>store := upd (store ?st) (document ?st)
                      (\<lambda>d. d\<lparr>indent := indent d + length (takeWhile is_space ''  x'')\<rparr>)\<rparr>
        = \<lparr>store = [\<lparr>indent = 0, title = None, content = [Paragraph [Aside PLAIN 1]]\<rparr>,
                  \<lparr>indent = 4, title = None, content = [Paragraph []]\<rparr>], stack = [0, 1]\<rparr>"
    by code_simp
  have d: "drop (length (takeWhile is_space ''  x'')) ''  x'' = ''x''" by code_simp
  from C7_leading_space_in_empty_document[OF r i1 p1 e1 t1 ne sp] l1
  have "claim_space ?st ''  x'' (Suc 1) =
     Inr (?st\<lparr>store := upd (store ?st) (document ?st)
                      (\<lambda>d. d\<lparr>indent := indent d + length (takeWhile is_space ''  x'')\<rparr>)\<rparr>,
          drop (length (takeWhile is_space ''  x'')) ''  x'')"
    by blast
  then have b: "claim_space ?st ''  x'' (Suc 1) =
     Inr (\<lparr>store = [\<lparr>indent = 0, title = None, content = [Paragraph [Aside PLAIN 1]]\<rparr>,
                  \<lparr>indent = 4, title = None, content = [Paragraph []]\<rparr>], stack = [0, 1]\<rparr>, ''x'')"
    by (simp only: u d)
  from a b show ?thesis by (rule conjI)
qed

section \<open>White space inside quotes and brackets\<close>

lemma mapping_keeps_spaces: "mapping c = Some a \<Longrightarrow> a AND WITH_SPACES = 0"
  by (auto simp: mapping_def Modifier_defs split: if_splits)

lemma xor_keeps_spaces:
  "m AND WITH_SPACES \<noteq> 0 \<Longrightarrow> a AND WITH_SPACES = 0 \<Longrightarrow> (m XOR a) AND WITH_SPACES \<noteq> 0"
  by (simp add: bit.conj_xor_distrib2)

lemma align_keeps_spaces:
  "m AND WITH_SPACES \<noteq> 0 \<Longrightarrow> (m XOR ALIGN) AND WITH_SPACES \<noteq> 0"
  by (simp add: bit.conj_xor_distrib2 Modifier_defs)

text \<open>While \<^verbatim>\<open>WITH_SPACES\<close> is set, tokens that do not toggle it go through without error.\<close>

lemma spaces_allowed_run:
  "m AND WITH_SPACES \<noteq> 0 \<Longrightarrow> list_all keeps_spaces ws \<Longrightarrow>
   \<exists>m' acc'. (\<forall>rest. words_loop ref m acc (ws @ rest) = words_loop ref m' acc' rest) \<and>
             m' AND WITH_SPACES \<noteq> 0"
proof (induction ws arbitrary: m acc)
  case Nil
  then show ?case by auto
next
  case (Cons w ws)
  from Cons.prems(2) have k: "keeps_spaces w" and ks: "list_all keeps_spaces ws" by simp_all
  show ?case
  proof (cases w)
    case Nil
    with Cons.IH[OF Cons.prems(1) ks, of acc] show ?thesis by simp
  next
    case (Cons c r)
    show ?thesis
    proof (cases "mapping c")
      case None
      let ?m = "if m AND ALIGN \<noteq> 0 then m XOR ALIGN else m"
      have m': "?m AND WITH_SPACES \<noteq> 0"
        using Cons.prems(1) align_keeps_spaces by simp
      have "\<forall>rest. words_loop ref m acc ((w # ws) @ rest) =
                   words_loop ref ?m (acc @ [Word w m]) (ws @ rest)"
        using None Cons Cons.prems(1) by simp
      with Cons.IH[OF m' ks, of "acc @ [Word w m]"] show ?thesis by simp
    next
      case (Some a)
      with k Cons have a: "length w \<noteq> 2" "a \<noteq> QUOTES" by (simp_all add: keeps_spaces_def)
      have m': "(m XOR a) AND WITH_SPACES \<noteq> 0"
        by (rule xor_keeps_spaces[OF Cons.prems(1) mapping_keeps_spaces[OF Some]])
      have "\<forall>rest. words_loop ref m acc ((w # ws) @ rest) = words_loop ref (m XOR a) acc (ws @ rest)"
        using Some Cons a by simp
      with Cons.IH[OF m' ks, of acc] show ?thesis by simp
    qed
  qed
qed

text \<open>
  While \<^verbatim>\<open>SELECT\<close> is set and \<^verbatim>\<open>WITH_SPACES\<close> is clear, words change neither, and the first
  white space raises.
\<close>

lemma select_opens:
  assumes "m AND WITH_SPACES = 0" and "m AND SELECT = 0"
  shows "(m XOR SELECT) AND SELECT \<noteq> 0 \<and> (m XOR SELECT) AND WITH_SPACES = 0"
  using assms by (simp add: bit.conj_xor_distrib2 Modifier_defs)

lemma plain_run_raises:
  "m AND SELECT \<noteq> 0 \<Longrightarrow> m AND WITH_SPACES = 0 \<Longrightarrow> list_all plain_word ps \<Longrightarrow>
   w \<noteq> [] \<Longrightarrow> is_space (hd w) \<Longrightarrow>
   words_loop ref m acc (ps @ w # rest) = Inl (ValueError ''Spaces are not allowed here!'' ref)"
proof (induction ps arbitrary: m acc)
  case Nil
  from Nil(1) have "m \<noteq> NONE" by (auto simp: NONE_def)
  with Nil show ?case by (simp add: space_not_sigil)
next
  case (Cons p ps)
  from Cons.prems(3) have p: "plain_word p" and ps: "list_all plain_word ps" by simp_all
  show ?case
  proof (cases p)
    case Nil
    with Cons.IH[OF Cons.prems(1,2) ps Cons.prems(4,5), of acc] show ?thesis by simp
  next
    case (Cons c r)
    with p have c: "mapping c = None" "\<not> is_space c" by (simp_all add: plain_word_def)
    let ?m = "if m AND ALIGN \<noteq> 0 then m XOR ALIGN else m"
    have s: "?m AND SELECT \<noteq> 0" and n: "?m AND WITH_SPACES = 0"
      using Cons.prems(1,2) by (simp_all add: bit.conj_xor_distrib2 Modifier_defs)
    have "words_loop ref m acc ((p # ps) @ w # rest) =
          words_loop ref ?m (acc @ [Word p m]) (ps @ w # rest)"
      using c Cons by simp
    with Cons.IH[OF s n ps Cons.prems(4,5), of "acc @ [Word p m]"] show ?thesis by simp
  qed
qed

text \<open>
  C2 as stated fails for the brackets: \<^verbatim>\<open>[\<close> and \<^verbatim>\<open>]\<close> toggle \<^verbatim>\<open>SELECT\<close> alone, so white
  space inside a bracket span raises.
\<close>

theorem C2_space_in_brackets_raises:
  "inline 1 ''[a b]'' = Inl (ValueError ''Spaces are not allowed here!'' 1)"
  by code_simp

text \<open>
  C2, amended. The sigil \<^verbatim>\<open>"\<close> toggles \<^verbatim>\<open>QUOTES\<close> together with \<^verbatim>\<open>WITH_SPACES\<close>; the sigils
  \<^verbatim>\<open>[\<close> and \<^verbatim>\<open>]\<close> toggle \<^verbatim>\<open>SELECT\<close> alone. A quote met while \<^verbatim>\<open>WITH_SPACES\<close> is clear sets it.
  A token that starts with white space raises \<^verbatim>\<open>Spaces are not allowed here!\<close> exactly when
  the running modifier is not \<^verbatim>\<open>NONE\<close> and lacks \<^verbatim>\<open>WITH_SPACES\<close>; otherwise it becomes a
  word. So after a quote met while \<^verbatim>\<open>WITH_SPACES\<close> is clear, a run of tokens with no quote
  and no doubled sigil in it (the tokens that toggle \<^verbatim>\<open>WITH_SPACES\<close>) does not raise, white
  space included, and \<^verbatim>\<open>WITH_SPACES\<close> is still set after the run, whatever follows. And after
  a \<^verbatim>\<open>[\<close> met while \<^verbatim>\<open>WITH_SPACES\<close> and \<^verbatim>\<open>SELECT\<close> are clear, white space that only words come
  before raises. The text \<^verbatim>\<open>"quoted text here"\<close> gives five words, the white space included,
  all with \<^verbatim>\<open>QUOTES | WITH_SPACES\<close>, and no error.
\<close>

theorem C2_quote_toggles_spaces:
  "words_loop ref m acc ([CHR 0x22] # ws) = words_loop ref (m XOR (QUOTES OR WITH_SPACES)) acc ws \<and>
   words_loop ref m acc (''['' # ws) = words_loop ref (m XOR SELECT) acc ws \<and>
   words_loop ref m acc ('']'' # ws) = words_loop ref (m XOR SELECT) acc ws \<and>
   (m AND WITH_SPACES = 0 \<longrightarrow> (m XOR (QUOTES OR WITH_SPACES)) AND WITH_SPACES \<noteq> 0) \<and>
   (w \<noteq> [] \<and> is_space (hd w) \<longrightarrow>
      words_loop ref m acc (w # ws) =
        (if m \<noteq> NONE \<and> m AND WITH_SPACES = 0
         then Inl (ValueError ''Spaces are not allowed here!'' ref)
         else words_loop ref (if m AND ALIGN \<noteq> 0 then m XOR ALIGN else m) (acc @ [Word w m]) ws)) \<and>
   (m AND WITH_SPACES = 0 \<and> list_all keeps_spaces ws \<longrightarrow>
      (\<exists>m' acc'. (\<forall>rest. words_loop ref m acc ([CHR 0x22] # ws @ rest) = words_loop ref m' acc' rest) \<and>
                 m' AND WITH_SPACES \<noteq> 0)) \<and>
   (m AND WITH_SPACES = 0 \<and> m AND SELECT = 0 \<and> list_all plain_word ps \<and>
    w \<noteq> [] \<and> is_space (hd w) \<longrightarrow>
      words_loop ref m acc (''['' # ps @ w # rest) =
        Inl (ValueError ''Spaces are not allowed here!'' ref)) \<and>
   inline 1 ''\"quoted text here\"'' =
     Inr (SourceLine 1
       [Word ''quoted'' (QUOTES OR WITH_SPACES), Word '' '' (QUOTES OR WITH_SPACES),
        Word ''text'' (QUOTES OR WITH_SPACES), Word '' '' (QUOTES OR WITH_SPACES),
        Word ''here'' (QUOTES OR WITH_SPACES)])"
proof (intro conjI impI)
  show q: "words_loop ref m acc ([CHR 0x22] # ws) = words_loop ref (m XOR (QUOTES OR WITH_SPACES)) acc ws"
    for ws
    by (simp add: mapping_def)
  show b: "words_loop ref m acc (''['' # ws) = words_loop ref (m XOR SELECT) acc ws" for ws
    by (simp add: mapping_def Modifier_defs)
  show "words_loop ref m acc ('']'' # ws) = words_loop ref (m XOR SELECT) acc ws"
    by (simp add: mapping_def Modifier_defs)
  show s: "(m XOR (QUOTES OR WITH_SPACES)) AND WITH_SPACES \<noteq> 0" if "m AND WITH_SPACES = 0"
    using quote_sets_spaces[OF that] by (simp add: WITH_SPACES_def)
  show "words_loop ref m acc (w # ws) =
        (if m \<noteq> NONE \<and> m AND WITH_SPACES = 0
         then Inl (ValueError ''Spaces are not allowed here!'' ref)
         else words_loop ref (if m AND ALIGN \<noteq> 0 then m XOR ALIGN else m) (acc @ [Word w m]) ws)"
    if "w \<noteq> [] \<and> is_space (hd w)"
    using that by (simp add: space_not_sigil)
  show "\<exists>m' acc'. (\<forall>rest. words_loop ref m acc ([CHR 0x22] # ws @ rest) = words_loop ref m' acc' rest) \<and>
                 m' AND WITH_SPACES \<noteq> 0"
    if h: "m AND WITH_SPACES = 0 \<and> list_all keeps_spaces ws"
  proof -
    from h have "(m XOR (QUOTES OR WITH_SPACES)) AND WITH_SPACES \<noteq> 0" by (intro s) simp
    from spaces_allowed_run[OF this, of ws ref acc] h q show ?thesis by simp
  qed
  show "words_loop ref m acc (''['' # ps @ w # rest) =
        Inl (ValueError ''Spaces are not allowed here!'' ref)"
    if h: "m AND WITH_SPACES = 0 \<and> m AND SELECT = 0 \<and> list_all plain_word ps \<and>
           w \<noteq> [] \<and> is_space (hd w)"
  proof -
    from h select_opens[of m] have "(m XOR SELECT) AND SELECT \<noteq> 0"
      and "(m XOR SELECT) AND WITH_SPACES = 0" by simp_all
    from plain_run_raises[OF this, of ps w ref acc rest] h b show ?thesis by simp
  qed
  show "inline 1 ''\"quoted text here\"'' =
     Inr (SourceLine 1
       [Word ''quoted'' (QUOTES OR WITH_SPACES), Word '' '' (QUOTES OR WITH_SPACES),
        Word ''text'' (QUOTES OR WITH_SPACES), Word '' '' (QUOTES OR WITH_SPACES),
        Word ''here'' (QUOTES OR WITH_SPACES)])"
    by code_simp
qed

theorem C2_witness:
  "(NONE XOR (QUOTES OR WITH_SPACES)) AND WITH_SPACES \<noteq> 0 \<and>
   words_loop 1 (QUOTES OR WITH_SPACES) [] ['' '', ''b''] =
     Inr [Word '' '' (QUOTES OR WITH_SPACES), Word ''b'' (QUOTES OR WITH_SPACES)] \<and>
   (\<exists>m' acc'. (\<forall>rest. words_loop 1 NONE [] ([CHR 0x22] # [''a'', '' '', ''*'', ''b''] @ rest) =
                        words_loop 1 m' acc' rest) \<and>
              m' AND WITH_SPACES \<noteq> 0) \<and>
   words_loop 1 NONE [] (''['' # [''a''] @ '' '' # [''b'', '']'']) =
     Inl (ValueError ''Spaces are not allowed here!'' 1)"
proof -
  have h1: "NONE AND WITH_SPACES = 0" by (simp add: Modifier_defs)
  have h2: "'' '' \<noteq> [] \<and> is_space (hd '' '')" by (simp add: is_space_def)
  have h3: "list_all keeps_spaces [''a'', '' '', ''*'', ''b'']" by code_simp
  have h4: "NONE AND SELECT = 0" by (simp add: Modifier_defs)
  have h5: "list_all plain_word [''a'']" by code_simp
  have c: "(if QUOTES OR WITH_SPACES \<noteq> NONE \<and> (QUOTES OR WITH_SPACES) AND WITH_SPACES = 0
         then Inl (ValueError ''Spaces are not allowed here!'' 1)
         else words_loop 1 (if (QUOTES OR WITH_SPACES) AND ALIGN \<noteq> 0 then (QUOTES OR WITH_SPACES) XOR ALIGN
                else QUOTES OR WITH_SPACES) ([] @ [Word '' '' (QUOTES OR WITH_SPACES)]) [''b''])
        = Inr [Word '' '' (QUOTES OR WITH_SPACES), Word ''b'' (QUOTES OR WITH_SPACES)]"
    by code_simp
  note t = C2_quote_toggles_spaces[of 1 NONE "[]" "[''a'', '' '', ''*'', ''b'']" "'' ''" "[''a'']" "[''b'', '']'']"]
  note u = C2_quote_toggles_spaces[of 1 "QUOTES OR WITH_SPACES" "[]" "[''b'']" "'' ''" "[]" "[]"]
  from t h1 have a: "(NONE XOR (QUOTES OR WITH_SPACES)) AND WITH_SPACES \<noteq> 0" by blast
  from u h2 have "words_loop 1 (QUOTES OR WITH_SPACES) [] ['' '', ''b''] =
     (if QUOTES OR WITH_SPACES \<noteq> NONE \<and> (QUOTES OR WITH_SPACES) AND WITH_SPACES = 0
         then Inl (ValueError ''Spaces are not allowed here!'' 1)
         else words_loop 1 (if (QUOTES OR WITH_SPACES) AND ALIGN \<noteq> 0 then (QUOTES OR WITH_SPACES) XOR ALIGN
                else QUOTES OR WITH_SPACES) ([] @ [Word '' '' (QUOTES OR WITH_SPACES)]) [''b''])"
    by blast
  with c have b: "words_loop 1 (QUOTES OR WITH_SPACES) [] ['' '', ''b''] =
     Inr [Word '' '' (QUOTES OR WITH_SPACES), Word ''b'' (QUOTES OR WITH_SPACES)]" by simp
  from t h1 h3 have d: "\<exists>m' acc'. (\<forall>rest. words_loop 1 NONE [] ([CHR 0x22] # [''a'', '' '', ''*'', ''b''] @ rest) =
                        words_loop 1 m' acc' rest) \<and> m' AND WITH_SPACES \<noteq> 0" by blast
  from t h1 h4 h5 h2 have e: "words_loop 1 NONE [] (''['' # [''a''] @ '' '' # [''b'', '']'']) =
     Inl (ValueError ''Spaces are not allowed here!'' 1)" by blast
  from a b d e show ?thesis by (intro conjI)
qed

section \<open>Headings\<close>

text \<open>
  When the last entry of the active document is a paragraph, the heading rule removes it
  if it is empty, appends the section and opens its document, of indent
  level + padding + 1, on the stack.
\<close>

lemma heading_rule_after_paragraph:
  assumes top: "document st < length (store st)"
    and c: "content (store st ! document st) = cs @ [Paragraph p]"
    and h: "heading_rule st i level pad ttl = Inr (st', j)"
  shows "stack st' = stack st @ [length (store st)]"
    and "store st' ! length (store st) = new_Document (level + pad + 1)"
    and "content (store st' ! document st) =
           (if p = [] then cs else cs @ [Paragraph p]) @ [Section level ttl (length (store st))]"
proof -
  have dp: "Document_paragraph (store st) (document st) = Inr (document st, p)"
    using c by (intro Document_paragraph_direct) simp_all
  have st': "st' = \<lparr>store = Document_append
        ((if p = [] then upd (store st) (document st) (\<lambda>d. d\<lparr>content := butlast (content d)\<rparr>)
          else store st) @ [new_Document (level + pad + 1)])
        (document st) (Section level ttl (length (store st))),
      stack = stack st @ [length (store st)]\<rparr>"
    using h dp c by (auto simp: heading_rule_def Let_def Document_pop_def split: if_splits)
  show "stack st' = stack st @ [length (store st)]" by (simp add: st')
  show "store st' ! length (store st) = new_Document (level + pad + 1)"
    using top by (simp add: st' Document_append_def nth_append)
  show "content (store st' ! document st) =
           (if p = [] then cs else cs @ [Paragraph p]) @ [Section level ttl (length (store st))]"
    using top c by (simp add: st' Document_append_def nth_append)
qed

text \<open>
  C3: the heading rule opens a scope of indent level + padding + 1, and removes the last
  entry of the active document when \<^verbatim>\<open>document().paragraph\<close> is empty. That paragraph is
  the last entry itself only when the last entry is a paragraph. After a section whose body
  is still empty it is the paragraph inside that section, and the entry removed is the
  section: for the lines \<^verbatim>\<open>intro\<close>, \<^verbatim>\<open># A\<close>, \<^verbatim>\<open># B\<close> the root document that \<^verbatim>\<open>parse\<close> returns
  holds the paragraph and the section B, and the section A is gone from it.
\<close>

theorem C3_heading_after_empty_section:
  "parse [''intro'', ''# A'', ''# B''] =
     Inr ([\<lparr>indent = 0, title = None,
            content = [Paragraph [Line [SourceLine 1 [Word ''intro'' NONE]]],
                       Section 1 (Some ''B'') 2]\<rparr>,
           \<lparr>indent = 2, title = None, content = [Paragraph []]\<rparr>,
           \<lparr>indent = 2, title = None, content = [Paragraph []]\<rparr>],
          0)"
  by code_simp

section \<open>Code fences\<close>

text \<open>
  C8 as stated fails inside a scope with an indent: a line of a block is stored as
  \<^verbatim>\<open>text[indent():]\<close>, without its first \<^verbatim>\<open>indent()\<close> characters whatever they are. Inside an
  aside of indent 2 the physical line \<^verbatim>\<open>x=1\<close> is stored as \<^verbatim>\<open>1\<close>.
\<close>

theorem C8_nested_block_line_is_cut:
  "parse [''> a'', ''  ```py'', ''x=1'', ''  ```''] =
     Inr ([\<lparr>indent = 0, title = None, content = [Paragraph [Aside PLAIN 1]]\<rparr>,
           \<lparr>indent = 2, title = None,
            content = [Paragraph [Line [SourceLine 1 [Word ''a'' NONE]],
                                  Block (Some ''py'') [SourceLine 2 [Word ''1'' BLOCK]]]]\<rparr>],
          0)"
  by code_simp

text \<open>
  C8, amended. Let line \<open>i\<close>, after the pops and the indent, match the opening fence with the
  language \<open>language\<close>, and let \<open>j\<close> be the first line after \<open>i\<close> that, with the total indent
  dropped, is a closing fence. Then the iteration appends one \<^verbatim>\<open>Block\<close> to the current
  paragraph and leaves the stack alone; the block holds, for each line between \<open>i\<close> and \<open>j\<close>,
  one source line of one word, the line with its first \<^verbatim>\<open>indent()\<close> characters dropped, with
  the modifier \<^verbatim>\<open>BLOCK\<close>; and the loop goes on after line \<open>j\<close>. At the total indent 0 the word
  is the physical line itself. For the lines \<^verbatim>\<open>```py\<close>, \<^verbatim>\<open>x=1\<close>, \<^verbatim>\<open>```\<close> the result is a block of
  language \<^verbatim>\<open>py\<close> with the one source line \<^verbatim>\<open>x=1\<close>.
\<close>

theorem C8_block_lines_without_indent:
  assumes "pop_scopes st (lines ! i) = Inr st1"
    and "claim_space st1 (drop (total_indent st1) (lines ! i)) (Suc i) = Inr (st2, tx)"
    and "re_block tx = Some language"
    and "i < j" and "j < length lines"
    and "re_block_end (drop (total_indent st2) (lines ! j))"
    and "list_all (\<lambda>k. \<not> re_block_end (drop (total_indent st2) (lines ! k))) [Suc i..<j]"
    and "Document_paragraph (store st2) (document st2) = Inr bp"
  shows "iteration lines i st =
           Inr (st2\<lparr>store := Paragraph_append (store st2) bp
                  (Block language
                    (map (\<lambda>k. SourceLine k [Word (drop (total_indent st2) (lines ! k)) BLOCK])
                      [Suc i..<j]))\<rparr>, j) \<and>
         (total_indent st2 = 0 \<longrightarrow>
            iteration lines i st =
              Inr (st2\<lparr>store := Paragraph_append (store st2) bp
                     (Block language (map (\<lambda>k. SourceLine k [Word (lines ! k) BLOCK]) [Suc i..<j]))\<rparr>,
                   j)) \<and>
         parse [''```py'', ''x=1'', ''```''] =
           Inr ([\<lparr>indent = 0, title = None,
                  content = [Paragraph [Block (Some ''py'') [SourceLine 1 [Word ''x=1'' BLOCK]]]]\<rparr>],
                0)"
proof (intro conjI impI)
  have n: "\<forall>k. Suc i \<le> k \<and> k < j \<longrightarrow> \<not> re_block_end (drop (total_indent st2) (lines ! k))"
    using assms(7) by (simp add: list_all_iff)
  have "block_loop lines (total_indent st2) (Suc i) [] =
      Inr ([] @ map (\<lambda>k. SourceLine k [Word (drop (total_indent st2) (lines ! k)) BLOCK]) [Suc i..<j], j)"
    using assms(4) by (intro block_loop_scan[OF assms(5) _ assms(6) n]) simp
  then have "block_rule lines i st2 language =
           Inr (st2\<lparr>store := Paragraph_append (store st2) bp
                  (Block language
                    (map (\<lambda>k. SourceLine k [Word (drop (total_indent st2) (lines ! k)) BLOCK])
                      [Suc i..<j]))\<rparr>, j)"
    using assms(4,5,8) by (simp add: block_rule_def)
  then show r: "iteration lines i st =
           Inr (st2\<lparr>store := Paragraph_append (store st2) bp
                  (Block language
                    (map (\<lambda>k. SourceLine k [Word (drop (total_indent st2) (lines ! k)) BLOCK])
                      [Suc i..<j]))\<rparr>, j)"
    using assms(1,2,3) by (simp add: iteration_def block_not_title block_not_heading)
  show "iteration lines i st =
              Inr (st2\<lparr>store := Paragraph_append (store st2) bp
                     (Block language (map (\<lambda>k. SourceLine k [Word (lines ! k) BLOCK]) [Suc i..<j]))\<rparr>,
                   j)"
    if "total_indent st2 = 0"
    using r that by simp
  show "parse [''```py'', ''x=1'', ''```''] =
           Inr ([\<lparr>indent = 0, title = None,
                  content = [Paragraph [Block (Some ''py'') [SourceLine 1 [Word ''x=1'' BLOCK]]]]\<rparr>],
                0)"
    by code_simp
qed

theorem C8_witness:
  "iteration [''> '', ''  ```py'', ''  x=1'', ''  # no heading'', ''  ```'', ''  b''] 1
     \<lparr>store = [\<lparr>indent = 0, title = None, content = [Paragraph [Aside PLAIN 1]]\<rparr>,
               \<lparr>indent = 2, title = None, content = [Paragraph []]\<rparr>], stack = [0, 1]\<rparr> =
   Inr (\<lparr>store = [\<lparr>indent = 0, title = None, content = [Paragraph [Aside PLAIN 1]]\<rparr>,
                  \<lparr>indent = 2, title = None,
                   content = [Paragraph [Block (Some ''py'')
                     [SourceLine 2 [Word ''x=1'' BLOCK], SourceLine 3 [Word ''# no heading'' BLOCK]]]]\<rparr>],
         stack = [0, 1]\<rparr>, 4) \<and>
   iteration [''```'', ''  x = 1'', ''> no aside'', ''```'', ''b''] 0 initial =
   Inr (\<lparr>store = [\<lparr>indent = 0, title = None,
                   content = [Paragraph [Block None
                     [SourceLine 1 [Word ''  x = 1'' BLOCK], SourceLine 2 [Word ''> no aside'' BLOCK]]]]\<rparr>],
         stack = [0]\<rparr>, 3)"
proof
  let ?L = "[''> '', ''  ```py'', ''  x=1'', ''  # no heading'', ''  ```'', ''  b'']"
  let ?st = "\<lparr>store = [\<lparr>indent = 0, title = None, content = [Paragraph [Aside PLAIN 1]]\<rparr>,
               \<lparr>indent = 2, title = None, content = [Paragraph []]\<rparr>], stack = [0, 1]\<rparr>"
  have h1: "pop_scopes ?st (?L ! 1) = Inr ?st" by code_simp
  have h2: "claim_space ?st (drop (total_indent ?st) (?L ! 1)) (Suc 1) = Inr (?st, ''```py'')"
    by code_simp
  have h3: "re_block ''```py'' = Some (Some ''py'')" by code_simp
  have h4: "(1::nat) < 4" and h5: "4 < length ?L" by simp_all
  have h6: "re_block_end (drop (total_indent ?st) (?L ! 4))" by code_simp
  have h7: "list_all (\<lambda>k. \<not> re_block_end (drop (total_indent ?st) (?L ! k))) [Suc 1..<4]"
    by code_simp
  have h8: "Document_paragraph (store ?st) (document ?st) = Inr (1, [])" by code_simp
  have r: "?st\<lparr>store := Paragraph_append (store ?st) (1, [])
                  (Block (Some ''py'')
                    (map (\<lambda>k. SourceLine k [Word (drop (total_indent ?st) (?L ! k)) BLOCK])
                      [Suc 1..<4]))\<rparr> =
     \<lparr>store = [\<lparr>indent = 0, title = None, content = [Paragraph [Aside PLAIN 1]]\<rparr>,
                  \<lparr>indent = 2, title = None,
                   content = [Paragraph [Block (Some ''py'')
                     [SourceLine 2 [Word ''x=1'' BLOCK], SourceLine 3 [Word ''# no heading'' BLOCK]]]]\<rparr>],
         stack = [0, 1]\<rparr>" by code_simp
  from C8_block_lines_without_indent[OF h1 h2 h3 h4 h5 h6 h7 h8]
  have "iteration ?L 1 ?st =
           Inr (?st\<lparr>store := Paragraph_append (store ?st) (1, [])
                  (Block (Some ''py'')
                    (map (\<lambda>k. SourceLine k [Word (drop (total_indent ?st) (?L ! k)) BLOCK])
                      [Suc 1..<4]))\<rparr>, 4)" by (rule conjunct1)
  then show "iteration ?L 1 ?st =
    Inr (\<lparr>store = [\<lparr>indent = 0, title = None, content = [Paragraph [Aside PLAIN 1]]\<rparr>,
                  \<lparr>indent = 2, title = None,
                   content = [Paragraph [Block (Some ''py'')
                     [SourceLine 2 [Word ''x=1'' BLOCK], SourceLine 3 [Word ''# no heading'' BLOCK]]]]\<rparr>],
         stack = [0, 1]\<rparr>, 4)" by (simp only: r)
next
  let ?L = "[''```'', ''  x = 1'', ''> no aside'', ''```'', ''b'']"
  have h1: "pop_scopes initial (?L ! 0) = Inr initial" by code_simp
  have h2: "claim_space initial (drop (total_indent initial) (?L ! 0)) (Suc 0) = Inr (initial, ''```'')"
    by code_simp
  have h3: "re_block ''```'' = Some None" by code_simp
  have h4: "(0::nat) < 3" and h5: "3 < length ?L" by simp_all
  have h6: "re_block_end (drop (total_indent initial) (?L ! 3))" by code_simp
  have h7: "list_all (\<lambda>k. \<not> re_block_end (drop (total_indent initial) (?L ! k))) [Suc 0..<3]"
    by code_simp
  have h8: "Document_paragraph (store initial) (document initial) = Inr (0, [])" by code_simp
  have z: "total_indent initial = 0" by code_simp
  have r: "initial\<lparr>store := Paragraph_append (store initial) (0, [])
                  (Block None (map (\<lambda>k. SourceLine k [Word (?L ! k) BLOCK]) [Suc 0..<3]))\<rparr> =
     \<lparr>store = [\<lparr>indent = 0, title = None,
                   content = [Paragraph [Block None
                     [SourceLine 1 [Word ''  x = 1'' BLOCK], SourceLine 2 [Word ''> no aside'' BLOCK]]]]\<rparr>],
         stack = [0]\<rparr>" by code_simp
  from C8_block_lines_without_indent[OF h1 h2 h3 h4 h5 h6 h7 h8] z
  have "iteration ?L 0 initial =
           Inr (initial\<lparr>store := Paragraph_append (store initial) (0, [])
                  (Block None (map (\<lambda>k. SourceLine k [Word (?L ! k) BLOCK]) [Suc 0..<3]))\<rparr>, 3)"
    by blast
  then show "iteration ?L 0 initial =
    Inr (\<lparr>store = [\<lparr>indent = 0, title = None,
                   content = [Paragraph [Block None
                     [SourceLine 1 [Word ''  x = 1'' BLOCK], SourceLine 2 [Word ''> no aside'' BLOCK]]]]\<rparr>],
         stack = [0]\<rparr>, 3)" by (simp only: r)
qed

section \<open>No word carries \<^verbatim>\<open>ALIGN\<close>\<close>

text \<open>
  C10: no sigil of the tokenizer's mapping has the \<^verbatim>\<open>ALIGN\<close> bit, alone or together with
  \<^verbatim>\<open>WITH_SPACES\<close>; every word the tokenizer emits for a line has the bit clear; and in what
  \<^verbatim>\<open>parse\<close> returns every word of every item (of the content and of the title of every
  document of the store) has it clear. The test \<^verbatim>\<open>modifier & Modifier.ALIGN\<close> after a word is
  made on the modifier of the word just emitted, so it is false each time it is made.
\<close>

theorem C10_no_word_is_aligned:
  "(mapping c = Some a \<longrightarrow> a AND ALIGN = 0 \<and> (a OR WITH_SPACES) AND ALIGN = 0) \<and>
   (inline ref tx = Inr sl \<longrightarrow> list_all (\<lambda>w. modifier w AND ALIGN = 0) (words sl)) \<and>
   (parse lines = Inr (s, r) \<longrightarrow> (\<forall>x\<in>store_items s. no_align x))"
  using mapping_no_align[of c a] inline_no_align[of ref tx sl] parse_no_align[of lines s r]
  by (simp add: items_ok_def)

theorem C10_witness:
  "BOLD AND ALIGN = 0 \<and> (BOLD OR WITH_SPACES) AND ALIGN = 0 \<and>
   list_all (\<lambda>w. modifier w AND ALIGN = 0)
     (words (SourceLine 1 [Word ''a'' BOLD, Word '' '' NONE, Word ''b'' NONE])) \<and>
   no_align (Line [SourceLine 1 [Word ''a'' BOLD, Word '' '' NONE, Word ''b'' NONE]]) \<and>
   no_align (Block None [SourceLine 2 [Word ''c'' BLOCK]])"
proof -
  let ?L = "[''*a* b'', ''```'', ''c'', ''```'']"
  let ?sl = "SourceLine 1 [Word ''a'' BOLD, Word '' '' NONE, Word ''b'' NONE]"
  let ?S = "[\<lparr>indent = 0, title = None,
              content = [Paragraph [Line [?sl], Block None [SourceLine 2 [Word ''c'' BLOCK]]]]\<rparr>]"
  have m: "mapping (CHR ''*'') = Some BOLD" by (simp add: mapping_def)
  have i: "inline 1 ''*a* b'' = Inr ?sl" by code_simp
  have p: "parse ?L = Inr (?S, 0)" by code_simp
  have x1: "Line [?sl] \<in> store_items ?S" by (simp add: store_items_def doc_items_def)
  have x2: "Block None [SourceLine 2 [Word ''c'' BLOCK]] \<in> store_items ?S"
    by (simp add: store_items_def doc_items_def)
  note t = C10_no_word_is_aligned[of "CHR ''*''" BOLD 1 "''*a* b''" ?sl ?L ?S 0]
  from t m have a: "BOLD AND ALIGN = 0 \<and> (BOLD OR WITH_SPACES) AND ALIGN = 0" by blast
  from t i have b: "list_all (\<lambda>w. modifier w AND ALIGN = 0) (words ?sl)" by blast
  from t p have c: "\<forall>x\<in>store_items ?S. no_align x" by blast
  from c x1 have d: "no_align (Line [?sl])" by blast
  from c x2 have e: "no_align (Block None [SourceLine 2 [Word ''c'' BLOCK]])" by blast
  from a b d e show ?thesis by blast
qed

section \<open>List markers\<close>









end
